theory Spec2Isabelle
  imports Main "HOL-Library.Word"
begin

section \<open>The thumbnailer of thunar/thunar-thumbnailer.c\<close>

text \<open>
  The model follows the code built with HAVE_DBUS. It is sequential: the mutex
  \<open>lock\<close> of the object is not modelled, and the handlers of the signal
  \<open>request-finished\<close> are taken not to call back into the thumbnailer while the
  signal is emitted. A pointer to a job or to an idle struct is a natural number, the
  address of the struct; \<open>g_slice_new0\<close> hands out addresses from a counter, so that an
  address is never given twice. The calls that act on the outside (setting the thumbnail
  state of a file, the Queue and Dequeue calls on the D-Bus proxy, the emission of the
  signal, the registration of an idle source) are appended, in the order of the code, to
  the field \<open>trace\<close> of the state. \<open>thunar_thumbnailer_finalize\<close> is not modelled:
  the thumbnailer is considered while it lives.
\<close>

subsection \<open>Data\<close>

type_synonym guint = "32 word"

text \<open>A \<open>ThunarFile *\<close> and the address of a job or idle struct.\<close>

type_synonym file_ref = nat
type_synonym addr = nat

text \<open>
  Modelled from the spec: the enum \<open>ThunarFileThumbState\<close> is declared in
  thunar-file.h, which is not among the sources. The code uses its values
  \<open>THUNAR_FILE_THUMB_STATE_NONE\<close>, \<open>_READY\<close> and \<open>_LOADING\<close>, the states "none",
  "ready" and "loading" of the spec; \<open>THUMB_STATE_UNKNOWN\<close> stands for a state that is
  none of the three.
\<close>

datatype thumb_state =
    THUMB_STATE_UNKNOWN
  | THUMB_STATE_NONE
  | THUMB_STATE_READY
  | THUMB_STATE_LOADING

text \<open>
  Modelled from the spec: a \<open>ThunarFile\<close> (thunar-file.h, not among the sources), as
  far as this file reads and writes it: its URI (\<open>thunar_file_dup_uri\<close>), its content
  type, which may be unknown (\<open>thunar_file_get_content_type\<close>), and its thumbnail state
  (\<open>thunar_file_get_thumb_state\<close>, \<open>thunar_file_set_thumb_state\<close>).
\<close>

record thunar_file =
  file_uri :: string
  file_content_type :: "string option"
  file_thumb_state :: thumb_state

datatype idle_type = THUNAR_THUMBNAILER_IDLE_ERROR | THUNAR_THUMBNAILER_IDLE_READY

text \<open>
  \<open>struct _ThunarThumbnailerJob\<close>. \<open>handle_call\<close> is the pointer to the pending D-Bus
  call, of which the code only asks whether it is NULL: \<open>True\<close> while it is set. The
  back pointer \<open>thumbnailer\<close> is left out, there is one thumbnailer.
\<close>

record job =
  job_addr :: addr
  cancelled :: bool
  request :: guint
  handle :: guint
  handle_call :: bool

text \<open>
  \<open>struct _ThunarThumbnailerIdle\<close>. The GLib source id \<open>id\<close> is read by
  \<open>thunar_thumbnailer_finalize\<close> only and is left out.
\<close>

record idle =
  idle_addr :: addr
  idle_type :: idle_type
  idle_uris :: "string list"

datatype event =
    Set_Thumb_State file_ref thumb_state
  | Proxy_Queue "string list" "string option list" addr
  | Proxy_Dequeue guint
  | Request_Finished guint
  | Idle_Add addr
  | Queue_Files_Returned bool "guint option"

text \<open>
  \<open>struct _ThunarThumbnailer\<close>, followed by what the code reaches outside of it: the
  \<open>ThunarFile\<close> objects, the allocator and the trace of calls. \<open>thumbnailer_proxy\<close> is
  \<open>True\<close> when the proxy pointer is not NULL.
\<close>

record thumbnailer =
  thumbnailer_proxy :: bool
  jobs :: "job list"
  supported_schemes :: "string list option"
  supported_types :: "string list option"
  last_request :: guint
  idles :: "idle list"
  files :: "file_ref \<Rightarrow> thunar_file"
  next_addr :: addr
  trace :: "event list"

text \<open>
  The collaborators that the code only queries: \<open>thunar_file_has_uri_scheme\<close>,
  \<open>g_content_type_is_a\<close>, the reply of the synchronous D-Bus call GetSupported
  (\<open>None\<close> when the call fails and leaves the two arrays as they are) and
  \<open>thunar_file_cache_lookup\<close> on the \<open>GFile\<close> of a URI.
\<close>

record env =
  file_has_uri_scheme :: "thunar_file \<Rightarrow> string \<Rightarrow> bool"
  content_type_is_a :: "string \<Rightarrow> string \<Rightarrow> bool"
  proxy_get_supported :: "(string list \<times> string list) option"
  file_cache_lookup :: "string \<Rightarrow> file_ref option"

subsection \<open>Construction\<close>

text \<open>
  \<open>thunar_thumbnailer_init\<close> with \<open>thunar_thumbnailer_init_thumbnailer_proxy\<close>: the
  object is zeroed by GObject, and there is a proxy exactly when there is a connection
  to the session bus.
\<close>

definition thunar_thumbnailer_init :: "bool \<Rightarrow> (file_ref \<Rightarrow> thunar_file) \<Rightarrow> thumbnailer" where
  "thunar_thumbnailer_init connection fl =
     \<lparr>thumbnailer_proxy = connection, jobs = [], supported_schemes = None,
      supported_types = None, last_request = 0, idles = [], files = fl,
      next_addr = 0, trace = []\<rparr>"

definition thunar_file_set_thumb_state :: "file_ref \<Rightarrow> thumb_state \<Rightarrow> thumbnailer \<Rightarrow> thumbnailer" where
  "thunar_file_set_thumb_state f st s =
     s\<lparr>files := (files s)(f := (files s f)\<lparr>file_thumb_state := st\<rparr>),
       trace := trace s @ [Set_Thumb_State f st]\<rparr>"

subsection \<open>Supported files\<close>

text \<open>
  The loop of \<open>thunar_thumbnailer_file_is_supported\<close> over the two parallel arrays:
  it stops at the first scheme and type that both match, or at the end of
  \<open>supported_schemes\<close>. The service returns two arrays of one length; where
  \<open>supported_types\<close> is the shorter one the C code reads its NULL terminator and what
  lies behind it, and the model answers \<open>False\<close>.
\<close>

fun supported_loop :: "env \<Rightarrow> thunar_file \<Rightarrow> string \<Rightarrow> string list \<Rightarrow> string list \<Rightarrow> bool" where
  "supported_loop e f ct [] tys = False"
| "supported_loop e f ct (sch # schs) [] = False"
| "supported_loop e f ct (sch # schs) (ty # tys) =
     (if file_has_uri_scheme e f sch \<and> content_type_is_a e ct ty then True
      else supported_loop e f ct schs tys)"

text \<open>
  "Request the supported types on demand": the synchronous call is made when one of the
  two cached arrays is NULL and, when it succeeds, stores both.
\<close>

definition request_supported :: "env \<Rightarrow> thumbnailer \<Rightarrow> thumbnailer" where
  "request_supported e s =
     (if supported_schemes s = None \<or> supported_types s = None
      then (case proxy_get_supported e of
              None \<Rightarrow> s
            | Some (schs, tys) \<Rightarrow>
                s\<lparr>supported_schemes := Some schs, supported_types := Some tys\<rparr>)
      else s)"

definition thunar_thumbnailer_file_is_supported ::
    "env \<Rightarrow> thumbnailer \<Rightarrow> file_ref \<Rightarrow> bool \<times> thumbnailer" where
  "thunar_thumbnailer_file_is_supported e s file =
     (if \<not> thumbnailer_proxy s then (False, s)
      else case file_content_type (files s file) of
        None \<Rightarrow> (False, s)
      | Some content_type \<Rightarrow>
          let s1 = request_supported e s
          in (case supported_schemes s1 of
                None \<Rightarrow> (False, s1)
              | Some schs \<Rightarrow>
                  (case supported_types s1 of
                     None \<Rightarrow> (False, s1)
                   | Some tys \<Rightarrow> (supported_loop e (files s file) content_type schs tys, s1))))"

subsection \<open>Notifications of the service\<close>

text \<open>
  The loop of \<open>thunar_thumbnailer_thumbnailer_finished\<close>: at the first job whose
  handle is the one of the signal it yields the request of that job and the list without
  its link, and stops; \<open>None\<close> when the loop runs to the end of the list.
\<close>

fun finished_loop :: "guint \<Rightarrow> job list \<Rightarrow> (guint \<times> job list) option" where
  "finished_loop h [] = None"
| "finished_loop h (j # js) =
     (if handle j = h then Some (request j, js)
      else (case finished_loop h js of
              None \<Rightarrow> None
            | Some (r, js') \<Rightarrow> Some (r, j # js')))"

definition thunar_thumbnailer_thumbnailer_finished :: "thumbnailer \<Rightarrow> guint \<Rightarrow> thumbnailer" where
  "thunar_thumbnailer_thumbnailer_finished s h =
     (case finished_loop h (jobs s) of
        None \<Rightarrow> s
      | Some (r, js) \<Rightarrow> s\<lparr>jobs := js, trace := trace s @ [Request_Finished r]\<rparr>)"

text \<open>
  \<open>thunar_thumbnailer_idle\<close>: nothing without URIs; otherwise the loop looks for the
  first job with the handle, and there it allocates the idle struct, puts it in front of
  \<open>idles\<close> and registers the idle source.
\<close>

definition thunar_thumbnailer_idle ::
    "thumbnailer \<Rightarrow> guint \<Rightarrow> idle_type \<Rightarrow> string list option \<Rightarrow> thumbnailer" where
  "thunar_thumbnailer_idle s h type uris =
     (case uris of
        None \<Rightarrow> s
      | Some us \<Rightarrow>
          (case find (\<lambda>j. handle j = h) (jobs s) of
             None \<Rightarrow> s
           | Some j \<Rightarrow>
               s\<lparr>idles := \<lparr>idle_addr = next_addr s, idle_type = type, idle_uris = us\<rparr> # idles s,
                 next_addr := Suc (next_addr s),
                 trace := trace s @ [Idle_Add (next_addr s)]\<rparr>))"

definition thunar_thumbnailer_thumbnailer_error ::
    "thumbnailer \<Rightarrow> guint \<Rightarrow> string list option \<Rightarrow> int \<Rightarrow> string \<Rightarrow> thumbnailer" where
  "thunar_thumbnailer_thumbnailer_error s h uris code message =
     thunar_thumbnailer_idle s h THUNAR_THUMBNAILER_IDLE_ERROR uris"

definition thunar_thumbnailer_thumbnailer_ready ::
    "thumbnailer \<Rightarrow> guint \<Rightarrow> string list option \<Rightarrow> thumbnailer" where
  "thunar_thumbnailer_thumbnailer_ready s h uris =
     thunar_thumbnailer_idle s h THUNAR_THUMBNAILER_IDLE_READY uris"

subsection \<open>The idle function\<close>

text \<open>One round of the loop of \<open>thunar_thumbnailer_idle_func\<close>, for one URI.\<close>

definition idle_uri :: "env \<Rightarrow> idle_type \<Rightarrow> string \<Rightarrow> thumbnailer \<Rightarrow> thumbnailer" where
  "idle_uri e type uri s =
     (case file_cache_lookup e uri of
        None \<Rightarrow> s
      | Some file \<Rightarrow>
          (case type of
             THUNAR_THUMBNAILER_IDLE_ERROR \<Rightarrow>
               (if file_thumb_state (files s file) \<noteq> THUMB_STATE_READY
                then thunar_file_set_thumb_state file THUMB_STATE_NONE s else s)
           | THUNAR_THUMBNAILER_IDLE_READY \<Rightarrow>
               thunar_file_set_thumb_state file THUMB_STATE_READY s))"

fun idle_loop :: "env \<Rightarrow> idle_type \<Rightarrow> string list \<Rightarrow> thumbnailer \<Rightarrow> thumbnailer" where
  "idle_loop e type [] s = s"
| "idle_loop e type (uri # uris) s = idle_loop e type uris (idle_uri e type uri s)"

text \<open>\<open>g_slist_remove\<close> on \<open>idles\<close>: the first link that points to the struct goes.\<close>

fun remove_idle :: "addr \<Rightarrow> idle list \<Rightarrow> idle list" where
  "remove_idle a [] = []"
| "remove_idle a (i # is) = (if idle_addr i = a then is else i # remove_idle a is)"

text \<open>
  \<open>thunar_thumbnailer_idle_func\<close> is called by the main loop with the pointer to the
  idle struct; \<open>None\<close> is a pointer to no struct of \<open>idles\<close>. As the function returns
  FALSE the source is destroyed and the struct freed with it.
\<close>

definition thunar_thumbnailer_idle_func :: "env \<Rightarrow> thumbnailer \<Rightarrow> addr \<Rightarrow> thumbnailer option" where
  "thunar_thumbnailer_idle_func e s a =
     (case find (\<lambda>i. idle_addr i = a) (idles s) of
        None \<Rightarrow> None
      | Some i \<Rightarrow>
          (let s1 = idle_loop e (idle_type i) (idle_uris i) s
           in Some (s1\<lparr>idles := remove_idle a (idles s1)\<rparr>)))"

subsection \<open>Queueing a request\<close>

text \<open>
  \<open>thunar_thumbnailer_queue_async\<close>. The sum is taken in \<open>guint\<close> and wraps; \<open>MAX\<close>
  compares unsigned. The first branch is the \<open>_thunar_return_val_if_fail\<close> on the proxy.
\<close>

definition thunar_thumbnailer_queue_async ::
    "thumbnailer \<Rightarrow> string list \<Rightarrow> string option list \<Rightarrow> guint \<times> thumbnailer" where
  "thunar_thumbnailer_queue_async s uris mime_hints =
     (if \<not> thumbnailer_proxy s then (0, s)
      else
        let request_no = max (last_request s + 1) 1;
            job = \<lparr>job_addr = next_addr s, cancelled = False, request = request_no,
                   handle = 0, handle_call = True\<rparr>
        in (request_no,
            s\<lparr>last_request := request_no,
              jobs := job # jobs s,
              next_addr := Suc (next_addr s),
              trace := trace s @ [Proxy_Queue uris mime_hints (next_addr s)]\<rparr>))"

text \<open>\<open>g_slist_remove\<close> on \<open>jobs\<close>, and a write through a pointer to a job.\<close>

fun remove_job :: "addr \<Rightarrow> job list \<Rightarrow> job list" where
  "remove_job a [] = []"
| "remove_job a (j # js) = (if job_addr j = a then js else j # remove_job a js)"

definition update_job :: "addr \<Rightarrow> (job \<Rightarrow> job) \<Rightarrow> job list \<Rightarrow> job list" where
  "update_job a f js = map (\<lambda>j. if job_addr j = a then f j else j) js"

text \<open>
  \<open>thunar_thumbnailer_queue_async_reply\<close>, called with the handle and the error of the
  reply and with the pointer to the job as user data. \<open>error\<close> is \<open>True\<close> when the
  \<open>GError\<close> is set; the handle is then whatever the binding passes. \<open>None\<close>: the pointer
  is to no job of the list, the job has been freed.
\<close>

definition thunar_thumbnailer_queue_async_reply ::
    "thumbnailer \<Rightarrow> addr \<Rightarrow> guint \<Rightarrow> bool \<Rightarrow> thumbnailer option" where
  "thunar_thumbnailer_queue_async_reply s a h error =
     (case find (\<lambda>j. job_addr j = a) (jobs s) of
        None \<Rightarrow> None
      | Some job \<Rightarrow>
          Some (if cancelled job
                then s\<lparr>jobs := remove_job a (jobs s),
                       trace := trace s @ [Proxy_Dequeue h]\<rparr>
                else if \<not> error
                then s\<lparr>jobs := update_job a (\<lambda>j. j\<lparr>handle := h, handle_call := False\<rparr>) (jobs s)\<rparr>
                else s\<lparr>jobs := update_job a (\<lambda>j. j\<lparr>handle_call := False\<rparr>) (jobs s)\<rparr>))"

text \<open>
  The first loop of \<open>thunar_thumbnailer_queue_files\<close> walks the files from the last to
  the first and puts the supported ones in front of \<open>supported_files\<close>.
\<close>

fun collect_supported ::
    "env \<Rightarrow> file_ref list \<Rightarrow> file_ref list \<Rightarrow> thumbnailer \<Rightarrow> file_ref list \<times> thumbnailer" where
  "collect_supported e [] supported_files s = (supported_files, s)"
| "collect_supported e (file # lp) supported_files s =
     (case thunar_thumbnailer_file_is_supported e s file of
        (ok, s') \<Rightarrow>
          collect_supported e lp (if ok then file # supported_files else supported_files) s')"

text \<open>
  The second loop walks \<open>supported_files\<close> from the last to the first: it sets the
  state of each file to loading and stores its URI and content type.
\<close>

fun fill_arrays ::
    "file_ref list \<Rightarrow> thumbnailer \<Rightarrow> string list \<times> string option list \<times> thumbnailer" where
  "fill_arrays [] s = ([], [], s)"
| "fill_arrays (file # lp) s =
     (let s' = thunar_file_set_thumb_state file THUMB_STATE_LOADING s
      in case fill_arrays lp s' of
           (uris, mime_hints, s'') \<Rightarrow>
             (file_uri (files s' file) # uris,
              file_content_type (files s' file) # mime_hints, s''))"

text \<open>
  \<open>thunar_thumbnailer_queue_files\<close>. \<open>request_ptr\<close> says whether the out parameter
  \<open>request\<close> is not NULL; the result is the boolean returned and what is stored in
  \<open>*request\<close>, \<open>None\<close> when nothing is stored.
\<close>

definition thunar_thumbnailer_queue_files ::
    "env \<Rightarrow> thumbnailer \<Rightarrow> file_ref list \<Rightarrow> bool \<Rightarrow> bool \<times> guint option \<times> thumbnailer" where
  "thunar_thumbnailer_queue_files e s fl request_ptr =
     (if \<not> thumbnailer_proxy s then (False, None, s)
      else case collect_supported e (rev fl) [] s of
        (supported_files, s1) \<Rightarrow>
          (if length supported_files > 0
           then (case fill_arrays (rev supported_files) s1 of
                   (uris, mime_hints, s2) \<Rightarrow>
                     (case thunar_thumbnailer_queue_async s2 uris mime_hints of
                        (request_no, s3) \<Rightarrow>
                          (True, if request_ptr then Some request_no else None, s3)))
           else (False, None, s1)))"

definition thunar_thumbnailer_queue_file ::
    "env \<Rightarrow> thumbnailer \<Rightarrow> file_ref \<Rightarrow> bool \<Rightarrow> bool \<times> guint option \<times> thumbnailer" where
  "thunar_thumbnailer_queue_file e s file request_ptr =
     thunar_thumbnailer_queue_files e s [file] request_ptr"

subsection \<open>Cancelling a request\<close>

text \<open>
  The loop of \<open>thunar_thumbnailer_dequeue\<close> stops at the first job of the request. The
  job is marked cancelled; with a handle other than 0 the request is dequeued at the
  service, when there is a proxy, and the job is unlinked and freed.
\<close>

fun dequeue_loop :: "bool \<Rightarrow> guint \<Rightarrow> job list \<Rightarrow> event list \<times> job list" where
  "dequeue_loop proxy r [] = ([], [])"
| "dequeue_loop proxy r (j # js) =
     (if request j = r
      then (if handle j \<noteq> 0
            then (if proxy then [Proxy_Dequeue (handle j)] else [], js)
            else ([], j\<lparr>cancelled := True\<rparr> # js))
      else (case dequeue_loop proxy r js of (evs, js') \<Rightarrow> (evs, j # js')))"

definition thunar_thumbnailer_dequeue :: "thumbnailer \<Rightarrow> guint \<Rightarrow> thumbnailer" where
  "thunar_thumbnailer_dequeue s r =
     (case dequeue_loop (thumbnailer_proxy s) r (jobs s) of
        (evs, js) \<Rightarrow> s\<lparr>jobs := js, trace := trace s @ evs\<rparr>)"

subsection \<open>Runs\<close>

text \<open>
  What reaches the thumbnailer from outside: the two public calls, the reply to a Queue
  call, the three signals of the service, and the main loop running an idle source. A
  run stops with \<open>None\<close> where a callback is given a pointer to a freed struct. The
  result of \<open>thunar_thumbnailer_queue_files\<close> is written to the trace.
\<close>

datatype action =
    Queue_Files "file_ref list" bool
  | Dequeue guint
  | Queue_Reply addr guint bool
  | Finished guint
  | Ready guint "string list option"
  | Error guint "string list option" int string
  | Idle_Func addr

fun step :: "env \<Rightarrow> thumbnailer \<Rightarrow> action \<Rightarrow> thumbnailer option" where
  "step e s (Queue_Files fl request_ptr) =
     (case thunar_thumbnailer_queue_files e s fl request_ptr of
        (ok, req, s') \<Rightarrow> Some (s'\<lparr>trace := trace s' @ [Queue_Files_Returned ok req]\<rparr>))"
| "step e s (Dequeue r) = Some (thunar_thumbnailer_dequeue s r)"
| "step e s (Queue_Reply a h error) = thunar_thumbnailer_queue_async_reply s a h error"
| "step e s (Finished h) = Some (thunar_thumbnailer_thumbnailer_finished s h)"
| "step e s (Ready h uris) = Some (thunar_thumbnailer_thumbnailer_ready s h uris)"
| "step e s (Error h uris code message) =
     Some (thunar_thumbnailer_thumbnailer_error s h uris code message)"
| "step e s (Idle_Func a) = thunar_thumbnailer_idle_func e s a"

fun run :: "env \<Rightarrow> thumbnailer \<Rightarrow> action list \<Rightarrow> thumbnailer option" where
  "run e s [] = Some s"
| "run e s (a # as) = (case step e s a of None \<Rightarrow> None | Some s' \<Rightarrow> run e s' as)"

section \<open>Notions used in the statements\<close>

text \<open>
  The requests of the \<open>request-finished\<close> signals of a trace, and the request ids
  that \<open>thunar_thumbnailer_queue_files\<close> returned to its callers, both in the order of
  the trace.
\<close>

fun finished_requests :: "event list \<Rightarrow> guint list" where
  "finished_requests [] = []"
| "finished_requests (Request_Finished r # evs) = r # finished_requests evs"
| "finished_requests (ev # evs) = finished_requests evs"

fun returned_requests :: "event list \<Rightarrow> guint list" where
  "returned_requests [] = []"
| "returned_requests (Queue_Files_Returned ok (Some r) # evs) = r # returned_requests evs"
| "returned_requests (ev # evs) = returned_requests evs"

text \<open>
  The registry of jobs, as far as its keys go: the address and the request of every job.
  \<open>registry_ok\<close> collects what holds of a thumbnailer as long as the request counter
  has not wrapped around: addresses and requests of the jobs are pairwise distinct and
  lie below the two counters, a finished request is the request of no job any more and
  no request has finished twice, and the returned requests have grown.
\<close>

definition keys :: "thumbnailer \<Rightarrow> (addr \<times> guint) list" where
  "keys s = map (\<lambda>j. (job_addr j, request j)) (jobs s)"

definition registry_ok :: "thumbnailer \<Rightarrow> bool" where
  "registry_ok s \<longleftrightarrow>
     distinct (map fst (keys s)) \<and>
     (\<forall>k\<in>set (keys s). fst k < next_addr s) \<and>
     distinct (map snd (keys s)) \<and>
     (\<forall>k\<in>set (keys s). snd k \<le> last_request s) \<and>
     (keys s \<noteq> [] \<longrightarrow> thumbnailer_proxy s) \<and>
     distinct (finished_requests (trace s)) \<and>
     (\<forall>r\<in>set (finished_requests (trace s)). r \<le> last_request s \<and> r \<notin> snd ` set (keys s)) \<and>
     sorted_wrt (<) (returned_requests (trace s)) \<and>
     (\<forall>r\<in>set (returned_requests (trace s)). r \<noteq> 0 \<and> r \<le> last_request s)"

text \<open>
  What one call does to the registry and to the two lists above: nothing, or one job
  leaves (with or without the signal for its request), or one job with the next request
  id enters in front.
\<close>

definition effect :: "thumbnailer \<Rightarrow> thumbnailer \<Rightarrow> bool" where
  "effect s s' \<longleftrightarrow>
     thumbnailer_proxy s' = thumbnailer_proxy s \<and> next_addr s \<le> next_addr s' \<and>
     (keys s' = keys s \<and> last_request s' = last_request s \<and>
        finished_requests (trace s') = finished_requests (trace s) \<and>
        returned_requests (trace s') = returned_requests (trace s)
      \<or> (\<exists>as k bs. keys s = as @ k # bs \<and> keys s' = as @ bs \<and>
           last_request s' = last_request s \<and>
           returned_requests (trace s') = returned_requests (trace s) \<and>
           (finished_requests (trace s') = finished_requests (trace s) \<or>
            finished_requests (trace s') = finished_requests (trace s) @ [snd k]))
      \<or> (thumbnailer_proxy s \<and> next_addr s < next_addr s' \<and>
          last_request s' = max (last_request s + 1) 1 \<and>
          keys s' = (next_addr s, last_request s') # keys s \<and>
          finished_requests (trace s') = finished_requests (trace s) \<and>
          (returned_requests (trace s') = returned_requests (trace s) \<or>
           returned_requests (trace s') = returned_requests (trace s) @ [last_request s'])))"

text \<open>
  The jobs of the Queue calls of a trace, by their addresses, in the order of the trace;
  the job by which a call is served, which is the first job with the handle when the
  call is a Finished signal, and none otherwise; and the jobs by which the calls of a
  run are served, in the order of the run. \<open>addr_ok\<close> holds of every thumbnailer that
  is reached: the jobs of the list lie at pairwise distinct addresses below the counter
  of the allocator.
\<close>

fun queued :: "event list \<Rightarrow> addr list" where
  "queued [] = []"
| "queued (Proxy_Queue uris mime_hints a # evs) = a # queued evs"
| "queued (ev # evs) = queued evs"

definition served_by :: "thumbnailer \<Rightarrow> action \<Rightarrow> job list" where
  "served_by s a =
     (case a of
        Finished h \<Rightarrow> (case find (\<lambda>j. handle j = h) (jobs s) of None \<Rightarrow> [] | Some j \<Rightarrow> [j])
      | _ \<Rightarrow> [])"

fun served :: "env \<Rightarrow> thumbnailer \<Rightarrow> action list \<Rightarrow> job list" where
  "served e s [] = []"
| "served e s (a # as) =
     (case step e s a of
        None \<Rightarrow> []
      | Some s' \<Rightarrow> served_by s a @ served e s' as)"

definition addr_ok :: "thumbnailer \<Rightarrow> bool" where
  "addr_ok s \<longleftrightarrow>
     distinct (map job_addr (jobs s)) \<and> (\<forall>a\<in>set (map job_addr (jobs s)). a < next_addr s)"


text \<open>
  A file is eligible when \<open>thunar_thumbnailer_file_is_supported\<close> answers TRUE for it;
  \<open>set_loading\<close> is the state after \<open>thunar_file_set_thumb_state\<close> with the state
  loading on each file of a list, from left to right.
\<close>

definition eligible :: "env \<Rightarrow> thumbnailer \<Rightarrow> file_ref \<Rightarrow> bool" where
  "eligible e s file = fst (thunar_thumbnailer_file_is_supported e s file)"

definition set_loading :: "file_ref list \<Rightarrow> thumbnailer \<Rightarrow> thumbnailer" where
  "set_loading fl s =
     s\<lparr>files := (\<lambda>f. if f \<in> set fl then (files s f)\<lparr>file_thumb_state := THUMB_STATE_LOADING\<rparr>
                        else files s f),
       trace := trace s @ map (\<lambda>f. Set_Thumb_State f THUMB_STATE_LOADING) fl\<rparr>"

subsection \<open>A concrete setting\<close>

text \<open>
  Three files, of which the first two are PNG images and the third has no known content
  type, a service that supports PNG images of the scheme \<open>file\<close>, and the states of a
  thumbnailer after the first file has been queued (\<open>example_pending\<close>) and after the
  service has answered with the handle 5 (\<open>example_attached\<close>).
\<close>

definition example_files :: "file_ref \<Rightarrow> thunar_file" where
  "example_files n =
     (if n = 0 then \<lparr>file_uri = ''file:///a.png'', file_content_type = Some ''image/png'',
                     file_thumb_state = THUMB_STATE_UNKNOWN\<rparr>
      else if n = 1 then \<lparr>file_uri = ''file:///b.png'', file_content_type = Some ''image/png'',
                     file_thumb_state = THUMB_STATE_UNKNOWN\<rparr>
      else \<lparr>file_uri = ''file:///c.txt'', file_content_type = None,
            file_thumb_state = THUMB_STATE_UNKNOWN\<rparr>)"

definition example_env :: env where
  "example_env =
     \<lparr>file_has_uri_scheme = (\<lambda>f sch. sch = ''file''),
      content_type_is_a = (\<lambda>ct ty. ct = ty),
      proxy_get_supported = Some ([''file''], [''image/png'']),
      file_cache_lookup = (\<lambda>uri. if uri = ''file:///a.png'' then Some 0
                                  else if uri = ''file:///b.png'' then Some 1 else None)\<rparr>"

definition example_init :: thumbnailer where
  "example_init = thunar_thumbnailer_init True example_files"

definition example_job :: job where
  "example_job = \<lparr>job_addr = 0, cancelled = False, request = 1, handle = 0, handle_call = True\<rparr>"

definition example_pending :: thumbnailer where
  "example_pending =
     \<lparr>thumbnailer_proxy = True, jobs = [example_job],
      supported_schemes = Some [''file''], supported_types = Some [''image/png''],
      last_request = 1, idles = [],
      files = example_files(0 := (example_files 0)\<lparr>file_thumb_state := THUMB_STATE_LOADING\<rparr>),
      next_addr = 1,
      trace = [Set_Thumb_State 0 THUMB_STATE_LOADING,
               Proxy_Queue [''file:///a.png''] [Some ''image/png''] 0,
               Queue_Files_Returned True (Some 1)]\<rparr>"

definition example_attached :: thumbnailer where
  "example_attached = example_pending\<lparr>jobs := [example_job\<lparr>handle := 5, handle_call := False\<rparr>]\<rparr>"


definition example_notified :: thumbnailer where
  "example_notified =
     example_attached
       \<lparr>idles := [\<lparr>idle_addr = 2, idle_type = THUNAR_THUMBNAILER_IDLE_READY,
                   idle_uris = [''file:///a.png'']\<rparr>,
                  \<lparr>idle_addr = 1, idle_type = THUNAR_THUMBNAILER_IDLE_ERROR,
                   idle_uris = [''file:///a.png'']\<rparr>],
        next_addr := 3,
        trace := trace example_attached @ [Idle_Add 1, Idle_Add 2]\<rparr>"

definition example_near_wrap :: thumbnailer where
  "example_near_wrap = example_init\<lparr>last_request := 4294967294\<rparr>"


section \<open>Auxiliary facts\<close>

lemma find_SomeD: "find P xs = Some x \<Longrightarrow> P x \<and> x \<in> set xs"
  by (induction xs) (auto split: if_splits)

lemma finished_requests_append:
  "finished_requests (xs @ ys) = finished_requests xs @ finished_requests ys"
  by (induction xs rule: finished_requests.induct) auto

lemma returned_requests_append:
  "returned_requests (xs @ ys) = returned_requests xs @ returned_requests ys"
  by (induction xs rule: returned_requests.induct) auto

lemma set_finished_requests: "r \<in> set (finished_requests evs) \<longleftrightarrow> Request_Finished r \<in> set evs"
  by (induction evs rule: finished_requests.induct) auto

lemma count_finished_requests:
  "count_list evs (Request_Finished r) = count_list (finished_requests evs) r"
  by (induction evs rule: finished_requests.induct) auto

lemma distinct_count_le: "distinct xs \<Longrightarrow> count_list xs x \<le> 1"
  by (induction xs) auto

lemma next_request: 
  fixes w :: guint
  assumes "w \<noteq> - 1"
  shows "max (w + 1) 1 = w + 1" and "w < w + 1" and "unat (w + 1) = Suc (unat w)" and "w + 1 \<noteq> 0"
proof -
  show nz: "w + 1 \<noteq> 0" using assms max_word_wrap by blast
  then have "1 \<le> w + 1" by (simp add: word_le_nat_alt unat_eq_0 Suc_le_eq unat_gt_0)
  then show "max (w + 1) 1 = w + 1" by (simp add: max_def)
  show "w < w + 1" using assms inc_less_eq_self_iff_eq [of w] by (simp add: not_le)
  show "unat (w + 1) = Suc (unat w)" using nz unatSuc [of w] by (simp add: add.commute)
qed

lemma next_request_nonzero: "max (w + 1) (1::guint) \<noteq> 0"
  by (metis max.cobounded2 word_le_0_iff zero_neq_one)

lemma effect_registry_ok:
  assumes "effect s s'" and "registry_ok s" and "last_request s \<noteq> - 1"
  shows "registry_ok s'"
proof -
  note n = next_request [OF assms(3)]
  from assms(1) consider
    (same) "thumbnailer_proxy s' = thumbnailer_proxy s" "next_addr s \<le> next_addr s'"
      "keys s' = keys s" "last_request s' = last_request s"
      "finished_requests (trace s') = finished_requests (trace s)"
      "returned_requests (trace s') = returned_requests (trace s)"
  | (del) as k bs where "thumbnailer_proxy s' = thumbnailer_proxy s" "next_addr s \<le> next_addr s'"
      "keys s = as @ k # bs" "keys s' = as @ bs" "last_request s' = last_request s"
      "returned_requests (trace s') = returned_requests (trace s)"
      "finished_requests (trace s') = finished_requests (trace s) \<or>
       finished_requests (trace s') = finished_requests (trace s) @ [snd k]"
  | (new) "thumbnailer_proxy s' = thumbnailer_proxy s" "thumbnailer_proxy s"
      "next_addr s < next_addr s'" "last_request s' = max (last_request s + 1) 1"
      "keys s' = (next_addr s, last_request s') # keys s"
      "finished_requests (trace s') = finished_requests (trace s)"
      "returned_requests (trace s') = returned_requests (trace s) \<or>
       returned_requests (trace s') = returned_requests (trace s) @ [last_request s']"
    unfolding effect_def by blast
  moreover have le: "next_addr s \<le> next_addr s'" using assms(1) unfolding effect_def by blast
  have b: "\<forall>k\<in>set (keys s). fst k < next_addr s'"
  proof
    fix k assume "k \<in> set (keys s)"
    with assms(2) have "fst k < next_addr s" unfolding registry_ok_def by blast
    with le show "fst k < next_addr s'" by simp
  qed
  ultimately show ?thesis
  proof cases
    case same
    with b assms(2) show ?thesis unfolding registry_ok_def by auto
  next
    case del
    from del(7) show ?thesis
    proof
      assume "finished_requests (trace s') = finished_requests (trace s)"
      with b del assms(2) show ?thesis unfolding registry_ok_def by (auto simp: image_iff)
    next
      assume "finished_requests (trace s') = finished_requests (trace s) @ [snd k]"
      with b del assms(2) show ?thesis unfolding registry_ok_def by (auto simp: image_iff)
    qed
  next
    case new
    have l: "last_request s' = last_request s + 1" using new(4) n(1) by simp
    have lt: "x \<le> last_request s \<Longrightarrow> x < last_request s'" for x
      using n(2) l by auto
    have k: "\<forall>k\<in>set (keys s). snd k < last_request s'"
      using assms(2) lt unfolding registry_ok_def by blast
    have f: "\<forall>r\<in>set (finished_requests (trace s)). r < last_request s'"
      using assms(2) lt unfolding registry_ok_def by blast
    have r: "\<forall>r\<in>set (returned_requests (trace s)). r < last_request s'"
      using assms(2) lt unfolding registry_ok_def by blast
    have nz: "last_request s' \<noteq> 0" using l n(4) by simp
    from new(7) show ?thesis
    proof
      assume "returned_requests (trace s') = returned_requests (trace s)"
      with b new assms(2) k f r nz show ?thesis unfolding registry_ok_def
        by (auto simp: image_iff)
    next
      assume "returned_requests (trace s') = returned_requests (trace s) @ [last_request s']"
      with b new assms(2) k f r nz show ?thesis unfolding registry_ok_def
        by (auto simp: image_iff sorted_wrt_append)
    qed
  qed
qed

lemma request_supported_idem: "request_supported e (request_supported e s) = request_supported e s"
  by (auto simp: request_supported_def split: option.splits)

lemma request_supported_fields:
  "thumbnailer_proxy (request_supported e s) = thumbnailer_proxy s"
  "jobs (request_supported e s) = jobs s"
  "last_request (request_supported e s) = last_request s"
  "idles (request_supported e s) = idles s"
  "files (request_supported e s) = files s"
  "next_addr (request_supported e s) = next_addr s"
  "trace (request_supported e s) = trace s"
  by (auto simp: request_supported_def split: option.splits)

lemma file_is_supported_state:
  "snd (thunar_thumbnailer_file_is_supported e s f) = s \<or>
   snd (thunar_thumbnailer_file_is_supported e s f) = request_supported e s"
  by (auto simp: thunar_thumbnailer_file_is_supported_def Let_def split: option.splits)

lemma eligible_request_supported: "eligible e (request_supported e s) f = eligible e s f"
  by (auto simp: eligible_def thunar_thumbnailer_file_is_supported_def request_supported_idem
      request_supported_fields Let_def split: option.splits)

lemma eligible_proxy: "eligible e s f \<Longrightarrow> thumbnailer_proxy s"
  by (auto simp: eligible_def thunar_thumbnailer_file_is_supported_def split: if_splits)

lemma collect_supported_eq:
  "\<exists>s1. (s1 = s \<or> s1 = request_supported e s) \<and>
     collect_supported e fl acc s = (rev (filter (eligible e s) fl) @ acc, s1)"
proof (induction fl arbitrary: acc s)
  case Nil
  then show ?case by simp
next
  case (Cons f fl)
  obtain ok s' where fs: "thunar_thumbnailer_file_is_supported e s f = (ok, s')"
    by (cases "thunar_thumbnailer_file_is_supported e s f")
  then have ok: "ok = eligible e s f" by (simp add: eligible_def)
  from fs file_is_supported_state [of e s f] have s': "s' = s \<or> s' = request_supported e s"
    by simp
  then have el: "eligible e s' = eligible e s"
    by (auto simp: eligible_request_supported)
  from Cons.IH [of s' "if ok then f # acc else acc"] obtain s1 where
    s1: "s1 = s' \<or> s1 = request_supported e s'" and
    c: "collect_supported e fl (if ok then f # acc else acc) s' =
         (rev (filter (eligible e s') fl) @ (if ok then f # acc else acc), s1)" by blast
  from s1 s' have "s1 = s \<or> s1 = request_supported e s"
    by (auto simp: request_supported_idem)
  moreover from fs c el ok have "collect_supported e (f # fl) acc s =
      (rev (filter (eligible e s) (f # fl)) @ acc, s1)" by simp
  ultimately show ?case by blast
qed

lemma fill_arrays_eq:
  "fill_arrays fl s =
     (map (\<lambda>f. file_uri (files s f)) fl, map (\<lambda>f. file_content_type (files s f)) fl,
      set_loading fl s)"
proof (induction fl arbitrary: s)
  case Nil
  then show ?case by (simp add: set_loading_def)
next
  case (Cons f fl)
  let ?s' = "thunar_file_set_thumb_state f THUMB_STATE_LOADING s"
  have u: "file_uri (files ?s' g) = file_uri (files s g)"
       "file_content_type (files ?s' g) = file_content_type (files s g)" for g
    by (simp_all add: thunar_file_set_thumb_state_def)
  have sl: "set_loading fl ?s' = set_loading (f # fl) s"
    by (auto simp: set_loading_def thunar_file_set_thumb_state_def fun_eq_iff)
  show ?case by (simp add: Cons.IH u sl Let_def)
qed

lemma queue_files_eq:
  "\<exists>s1. (s1 = s \<or> s1 = request_supported e s) \<and>
     thunar_thumbnailer_queue_files e s fl request_ptr =
       (if thumbnailer_proxy s \<and> filter (eligible e s) fl \<noteq> []
        then (True,
              if request_ptr then Some (max (last_request s + 1) 1) else None,
              snd (thunar_thumbnailer_queue_async
                     (set_loading (rev (filter (eligible e s) fl)) s1)
                     (map (\<lambda>f. file_uri (files s f)) (rev (filter (eligible e s) fl)))
                     (map (\<lambda>f. file_content_type (files s f)) (rev (filter (eligible e s) fl)))))
        else (False, None, if thumbnailer_proxy s then s1 else s))"
proof -
  from collect_supported_eq [of s e "rev fl" "[]"] obtain s1 where
    s1: "s1 = s \<or> s1 = request_supported e s" and
    c: "collect_supported e (rev fl) [] s = (filter (eligible e s) fl, s1)"
    by (auto simp: rev_filter)
  from s1 have f: "files s1 = files s" "last_request s1 = last_request s"
     "thumbnailer_proxy s1 = thumbnailer_proxy s"
    by (auto simp: request_supported_fields)
  have "thunar_thumbnailer_queue_files e s fl request_ptr =
       (if thumbnailer_proxy s \<and> filter (eligible e s) fl \<noteq> []
        then (True,
              if request_ptr then Some (max (last_request s + 1) 1) else None,
              snd (thunar_thumbnailer_queue_async
                     (set_loading (rev (filter (eligible e s) fl)) s1)
                     (map (\<lambda>f. file_uri (files s f)) (rev (filter (eligible e s) fl)))
                     (map (\<lambda>f. file_content_type (files s f)) (rev (filter (eligible e s) fl)))))
        else (False, None, if thumbnailer_proxy s then s1 else s))"
    by (simp add: thunar_thumbnailer_queue_files_def c fill_arrays_eq f
        thunar_thumbnailer_queue_async_def set_loading_def Let_def split: prod.splits)
  with s1 show ?thesis by blast
qed

lemma finished_loop_None: "finished_loop h js = None \<longleftrightarrow> (\<forall>j\<in>set js. handle j \<noteq> h)"
  by (induction js) (auto split: option.splits)

lemma finished_loop_find:
  "finished_loop h js =
     (case find (\<lambda>j. handle j = h) js of
        None \<Rightarrow> None
      | Some j \<Rightarrow> Some (request j, remove1 j js))"
  by (induction js) (auto split: option.splits dest: find_SomeD)

lemma find_split:
  "find P js = Some j \<Longrightarrow> \<exists>as bs. js = as @ j # bs \<and> remove1 j js = as @ bs \<and> (\<forall>x\<in>set as. \<not> P x)"
proof (induction js)
  case Nil
  then show ?case by simp
next
  case (Cons x xs)
  show ?case
  proof (cases "P x")
    case True
    with Cons.prems have "x = j" by simp
    then have "x # xs = [] @ j # xs \<and> remove1 j (x # xs) = [] @ xs \<and> (\<forall>y\<in>set []. \<not> P y)"
      by simp
    then show ?thesis by blast
  next
    case False
    with Cons.prems have f: "find P xs = Some j" by simp
    with False find_SomeD [OF f] have ne: "x \<noteq> j" by auto
    from Cons.IH [OF f] obtain as bs where
      "xs = as @ j # bs" "remove1 j xs = as @ bs" "\<forall>y\<in>set as. \<not> P y" by blast
    with False ne have "x # xs = (x # as) @ j # bs \<and> remove1 j (x # xs) = (x # as) @ bs \<and>
      (\<forall>y\<in>set (x # as). \<not> P y)" by simp
    then show ?thesis by blast
  qed
qed

lemma remove_job_find:
  "remove_job a js = (case find (\<lambda>j. job_addr j = a) js of None \<Rightarrow> js | Some j \<Rightarrow> remove1 j js)"
  by (induction js) (auto split: option.splits dest: find_SomeD)

lemma remove_idle_find:
  "remove_idle a is = (case find (\<lambda>i. idle_addr i = a) is of None \<Rightarrow> is | Some i \<Rightarrow> remove1 i is)"
  by (induction "is") (auto split: option.splits dest: find_SomeD)

lemma dequeue_loop_none:
  "\<forall>x\<in>set js. request x \<noteq> r \<Longrightarrow> dequeue_loop p r js = ([], js)"
  by (induction js) auto

lemma dequeue_loop_split:
  "\<forall>x\<in>set as. request x \<noteq> r \<Longrightarrow> request j = r \<Longrightarrow>
   dequeue_loop p r (as @ j # bs) =
     (if handle j \<noteq> 0 then (if p then [Proxy_Dequeue (handle j)] else [], as @ bs)
      else ([], as @ j\<lparr>cancelled := True\<rparr> # bs))"
  by (induction as) auto

lemma find_None_all: "find P xs = None \<Longrightarrow> \<forall>x\<in>set xs. \<not> P x"
  by (induction xs) (auto split: if_splits)

lemma keys_jobs_update: "keys (s\<lparr>jobs := js\<rparr>) = map (\<lambda>j. (job_addr j, request j)) js"
  by (simp add: keys_def)

lemma finished_requests_set_thumb [simp]:
  "finished_requests (map (\<lambda>f. Set_Thumb_State f st) fl) = []"
  "returned_requests (map (\<lambda>f. Set_Thumb_State f st) fl) = []"
  by (induction fl) auto

lemma effect_refl: "effect s s"
  by (simp add: effect_def)

lemma effect_sameI:
  "thumbnailer_proxy s' = thumbnailer_proxy s \<Longrightarrow> next_addr s \<le> next_addr s' \<Longrightarrow>
   keys s' = keys s \<Longrightarrow> last_request s' = last_request s \<Longrightarrow>
   finished_requests (trace s') = finished_requests (trace s) \<Longrightarrow>
   returned_requests (trace s') = returned_requests (trace s) \<Longrightarrow> effect s s'"
  by (simp add: effect_def)

lemma effect_delI:
  "thumbnailer_proxy s' = thumbnailer_proxy s \<Longrightarrow> next_addr s \<le> next_addr s' \<Longrightarrow>
   keys s = as @ k # bs \<Longrightarrow> keys s' = as @ bs \<Longrightarrow> last_request s' = last_request s \<Longrightarrow>
   returned_requests (trace s') = returned_requests (trace s) \<Longrightarrow>
   finished_requests (trace s') = finished_requests (trace s) \<or>
   finished_requests (trace s') = finished_requests (trace s) @ [snd k] \<Longrightarrow> effect s s'"
  unfolding effect_def by blast

lemma effect_newI:
  "thumbnailer_proxy s' = thumbnailer_proxy s \<Longrightarrow> thumbnailer_proxy s \<Longrightarrow>
   next_addr s < next_addr s' \<Longrightarrow> last_request s' = max (last_request s + 1) 1 \<Longrightarrow>
   keys s' = (next_addr s, last_request s') # keys s \<Longrightarrow>
   finished_requests (trace s') = finished_requests (trace s) \<Longrightarrow>
   returned_requests (trace s') = returned_requests (trace s) \<or>
   returned_requests (trace s') = returned_requests (trace s) @ [last_request s'] \<Longrightarrow>
   effect s s'"
  unfolding effect_def by simp

lemma effect_finished: "effect s (thunar_thumbnailer_thumbnailer_finished s h)"
proof (cases "find (\<lambda>j. handle j = h) (jobs s)")
  case None
  then show ?thesis
    by (simp add: thunar_thumbnailer_thumbnailer_finished_def finished_loop_find effect_refl)
next
  case (Some j)
  from find_split [OF Some] obtain as bs where
    sp: "jobs s = as @ j # bs" "remove1 j (jobs s) = as @ bs" by blast
  let ?k = "\<lambda>j. (job_addr j, request j)"
  have "keys s = map ?k as @ ?k j # map ?k bs" using sp by (simp add: keys_def)
  moreover have "keys (thunar_thumbnailer_thumbnailer_finished s h) = map ?k as @ map ?k bs"
    using Some sp by (simp add: thunar_thumbnailer_thumbnailer_finished_def finished_loop_find keys_def)
  moreover have "finished_requests (trace (thunar_thumbnailer_thumbnailer_finished s h)) =
      finished_requests (trace s) @ [snd (?k j)]"
    using Some by (simp add: thunar_thumbnailer_thumbnailer_finished_def finished_loop_find
        finished_requests_append)
  moreover have "returned_requests (trace (thunar_thumbnailer_thumbnailer_finished s h)) =
      returned_requests (trace s)"
    "thumbnailer_proxy (thunar_thumbnailer_thumbnailer_finished s h) = thumbnailer_proxy s"
    "next_addr (thunar_thumbnailer_thumbnailer_finished s h) = next_addr s"
    "last_request (thunar_thumbnailer_thumbnailer_finished s h) = last_request s"
    using Some by (simp_all add: thunar_thumbnailer_thumbnailer_finished_def finished_loop_find
        returned_requests_append)
  ultimately show ?thesis by (intro effect_delI [where k = "?k j"]) simp_all
qed

lemma effect_dequeue: "effect s (thunar_thumbnailer_dequeue s r)"
proof (cases "find (\<lambda>j. request j = r) (jobs s)")
  case None
  from find_None_all [OF None] show ?thesis
    by (simp add: thunar_thumbnailer_dequeue_def dequeue_loop_none effect_refl)
next
  case (Some j)
  from find_split [OF Some] obtain as bs where
    sp: "jobs s = as @ j # bs" "\<forall>x\<in>set as. request x \<noteq> r"
    by blast
  from find_SomeD [OF Some] have rj: "request j = r" by simp
  note dl = dequeue_loop_split [OF sp(2) rj, of "thumbnailer_proxy s" bs]
  let ?k = "\<lambda>j. (job_addr j, request j)"
  let ?s' = "thunar_thumbnailer_dequeue s r"
  have k: "keys s = map ?k as @ ?k j # map ?k bs" using sp by (simp add: keys_def)
  have f: "returned_requests (trace ?s') = returned_requests (trace s)"
    "finished_requests (trace ?s') = finished_requests (trace s)"
    "thumbnailer_proxy ?s' = thumbnailer_proxy s"
    "next_addr ?s' = next_addr s"
    "last_request ?s' = last_request s"
    by (simp_all add: thunar_thumbnailer_dequeue_def sp(1) dl
        returned_requests_append finished_requests_append)
  show ?thesis
  proof (cases "handle j = 0")
    case True
    then have "keys ?s' = keys s"
      by (simp add: thunar_thumbnailer_dequeue_def sp(1) dl keys_def)
    with f show ?thesis by (intro effect_sameI) simp_all
  next
    case False
    then have "keys ?s' = map ?k as @ map ?k bs"
      by (simp add: thunar_thumbnailer_dequeue_def sp(1) dl keys_def)
    with f k show ?thesis by (intro effect_delI [where k = "?k j"]) simp_all
  qed
qed

lemma update_job_keys:
  "(\<And>j. job_addr (f j) = job_addr j \<and> request (f j) = request j) \<Longrightarrow>
   map (\<lambda>j. (job_addr j, request j)) (update_job a f js) = map (\<lambda>j. (job_addr j, request j)) js"
  by (induction js) (auto simp: update_job_def)

lemma effect_reply:
  assumes "thunar_thumbnailer_queue_async_reply s a h error = Some s'"
  shows "effect s s'"
proof -
  from assms obtain j where j: "find (\<lambda>j. job_addr j = a) (jobs s) = Some j"
    by (auto simp: thunar_thumbnailer_queue_async_reply_def split: option.splits)
  from find_split [OF j] obtain as bs where
    sp: "jobs s = as @ j # bs" "remove1 j (jobs s) = as @ bs" by blast
  let ?k = "\<lambda>j. (job_addr j, request j)"
  have k: "keys s = map ?k as @ ?k j # map ?k bs" using sp by (simp add: keys_def)
  show ?thesis
  proof (cases "cancelled j")
    case True
    with assms j have s': "s' = s\<lparr>jobs := remove_job a (jobs s), trace := trace s @ [Proxy_Dequeue h]\<rparr>"
      by (simp add: thunar_thumbnailer_queue_async_reply_def)
    have "keys s' = map ?k as @ map ?k bs" using j sp
      by (simp add: s' keys_def remove_job_find)
    with k show ?thesis
      by (intro effect_delI [where k = "?k j"])
        (simp_all add: s' returned_requests_append finished_requests_append)
  next
    case False
    with assms j have "keys s' = keys s" "trace s' = trace s"
      "thumbnailer_proxy s' = thumbnailer_proxy s" "next_addr s' = next_addr s"
      "last_request s' = last_request s"
      by (auto simp: thunar_thumbnailer_queue_async_reply_def keys_def update_job_keys
          split: if_splits)
    then show ?thesis by (intro effect_sameI) simp_all
  qed
qed

lemma effect_idle: "effect s (thunar_thumbnailer_idle s h type uris)"
  by (intro effect_sameI)
    (auto simp: thunar_thumbnailer_idle_def keys_def returned_requests_append
      finished_requests_append split: option.splits)

lemma idle_uri_fields:
  "thumbnailer_proxy (idle_uri e type uri s) = thumbnailer_proxy s"
  "jobs (idle_uri e type uri s) = jobs s"
  "last_request (idle_uri e type uri s) = last_request s"
  "idles (idle_uri e type uri s) = idles s"
  "next_addr (idle_uri e type uri s) = next_addr s"
  "finished_requests (trace (idle_uri e type uri s)) = finished_requests (trace s)"
  "returned_requests (trace (idle_uri e type uri s)) = returned_requests (trace s)"
  by (auto simp: idle_uri_def thunar_file_set_thumb_state_def returned_requests_append
      finished_requests_append split: option.splits idle_type.splits)

lemma idle_loop_fields:
  "thumbnailer_proxy (idle_loop e type uris s) = thumbnailer_proxy s"
  "jobs (idle_loop e type uris s) = jobs s"
  "last_request (idle_loop e type uris s) = last_request s"
  "idles (idle_loop e type uris s) = idles s"
  "next_addr (idle_loop e type uris s) = next_addr s"
  "finished_requests (trace (idle_loop e type uris s)) = finished_requests (trace s)"
  "returned_requests (trace (idle_loop e type uris s)) = returned_requests (trace s)"
  by (induction uris arbitrary: s; simp add: idle_uri_fields)+

lemma effect_idle_func:
  assumes "thunar_thumbnailer_idle_func e s a = Some s'"
  shows "effect s s'"
  using assms by (intro effect_sameI)
    (auto simp: thunar_thumbnailer_idle_func_def Let_def keys_def idle_loop_fields
      split: option.splits)

lemma effect_queue_files:
  assumes "thunar_thumbnailer_queue_files e s fl request_ptr = (ok, req, s')"
  shows "effect s (s'\<lparr>trace := trace s' @ [Queue_Files_Returned ok req]\<rparr>)"
proof -
  from queue_files_eq [of s e fl request_ptr] obtain s1 where
    s1: "s1 = s \<or> s1 = request_supported e s" and
    q: "thunar_thumbnailer_queue_files e s fl request_ptr =
       (if thumbnailer_proxy s \<and> filter (eligible e s) fl \<noteq> []
        then (True,
              if request_ptr then Some (max (last_request s + 1) 1) else None,
              snd (thunar_thumbnailer_queue_async
                     (set_loading (rev (filter (eligible e s) fl)) s1)
                     (map (\<lambda>f. file_uri (files s f)) (rev (filter (eligible e s) fl)))
                     (map (\<lambda>f. file_content_type (files s f)) (rev (filter (eligible e s) fl)))))
        else (False, None, if thumbnailer_proxy s then s1 else s))" by blast
  from s1 have f: "jobs s1 = jobs s" "last_request s1 = last_request s" "trace s1 = trace s"
     "thumbnailer_proxy s1 = thumbnailer_proxy s" "next_addr s1 = next_addr s"
    by (auto simp: request_supported_fields)
  show ?thesis
  proof (cases "thumbnailer_proxy s \<and> filter (eligible e s) fl \<noteq> []")
    case True
    with q assms f show ?thesis
      by (intro effect_newI)
        (auto simp: thunar_thumbnailer_queue_async_def set_loading_def Let_def keys_def
          returned_requests_append finished_requests_append)
  next
    case False
    with q assms f show ?thesis
      by (intro effect_sameI)
        (auto simp: keys_def returned_requests_append finished_requests_append split: if_splits)
  qed
qed

lemma step_effect: "step e s a = Some s' \<Longrightarrow> effect s s'"
proof (cases a)
  case (Queue_Files fl request_ptr)
  assume "step e s a = Some s'"
  with Queue_Files show ?thesis
    by (auto split: prod.splits dest: effect_queue_files)
qed (auto simp: effect_finished effect_dequeue effect_reply effect_idle effect_idle_func
      thunar_thumbnailer_thumbnailer_ready_def thunar_thumbnailer_thumbnailer_error_def)

lemma registry_ok_init: "registry_ok (thunar_thumbnailer_init c fl)"
  by (simp add: registry_ok_def keys_def thunar_thumbnailer_init_def)

lemma effect_last_request:
  assumes "effect s s'" and "last_request s \<noteq> - 1"
  shows "unat (last_request s') \<le> Suc (unat (last_request s))"
    and "last_request s \<le> last_request s'"
proof -
  note n = next_request [OF assms(2)]
  from assms(1) have "last_request s' = last_request s \<or> last_request s' = last_request s + 1"
    unfolding effect_def using n(1) by auto
  then show "unat (last_request s') \<le> Suc (unat (last_request s))"
    and "last_request s \<le> last_request s'"
    using n(2,3) by auto
qed

lemma unat_not_max: "unat (w :: guint) < 4294967295 \<Longrightarrow> w \<noteq> - 1"
proof
  assume "unat w < 4294967295" "w = - 1"
  then have "unat (- 1 :: guint) < 4294967295" by simp
  then show False by (simp add: unsigned_minus_1_eq_mask mask_eq_exp_minus_1)
qed

lemma run_append:
  "run e s (xs @ ys) = (case run e s xs of None \<Rightarrow> None | Some s' \<Rightarrow> run e s' ys)"
  by (induction xs arbitrary: s) (auto split: option.splits)

lemma run_registry_ok:
  "run e s acts = Some s' \<Longrightarrow> registry_ok s \<Longrightarrow>
   unat (last_request s) + length acts < 4294967295 \<Longrightarrow>
   registry_ok s' \<and> unat (last_request s') \<le> unat (last_request s) + length acts \<and>
   last_request s \<le> last_request s'"
proof (induction acts arbitrary: s)
  case Nil
  then show ?case by simp
next
  case (Cons a acts)
  from Cons.prems(1) obtain s1 where st: "step e s a = Some s1" and r: "run e s1 acts = Some s'"
    by (auto split: option.splits)
  from Cons.prems(3) have nm: "last_request s \<noteq> - 1" by (intro unat_not_max) simp
  note ef = step_effect [OF st]
  from effect_registry_ok [OF ef Cons.prems(2) nm] have ok1: "registry_ok s1" .
  from effect_last_request [OF ef nm]
  have l: "unat (last_request s1) \<le> Suc (unat (last_request s))"
    "last_request s \<le> last_request s1" .
  with Cons.prems(3) have b: "unat (last_request s1) + length acts < 4294967295" by simp
  from Cons.IH [OF r ok1 b] l show ?case by auto
qed

lemma run_init_registry_ok:
  assumes "run e (thunar_thumbnailer_init c fl) acts = Some s" and "length acts < 4294967295"
  shows "registry_ok s" and "unat (last_request s) \<le> length acts"
  using run_registry_ok [OF assms(1) registry_ok_init] assms(2)
  by (simp_all add: thunar_thumbnailer_init_def)

lemma registry_ok_count:
  "registry_ok s \<Longrightarrow> count_list (trace s) (Request_Finished r) \<le> 1"
  using distinct_count_le [of "finished_requests (trace s)" r]
  by (simp add: registry_ok_def count_finished_requests)

lemma finished_no_job:
  "\<forall>j\<in>set (jobs s). handle j \<noteq> h \<Longrightarrow> thunar_thumbnailer_thumbnailer_finished s h = s"
  by (simp add: thunar_thumbnailer_thumbnailer_finished_def finished_loop_None [THEN iffD2])

lemma finished_job:
  "find (\<lambda>j. handle j = h) (jobs s) = Some j \<Longrightarrow>
   thunar_thumbnailer_thumbnailer_finished s h =
     s\<lparr>jobs := remove1 j (jobs s), trace := trace s @ [Request_Finished (request j)]\<rparr>"
  by (simp add: thunar_thumbnailer_thumbnailer_finished_def finished_loop_find)

lemma find_Some_ex: "\<exists>x\<in>set xs. P x \<Longrightarrow> \<exists>x. find P xs = Some x"
  by (induction xs) auto


lemma find_update_job:
  "find (\<lambda>j. job_addr j = a) js = Some job \<Longrightarrow> (\<And>j. job_addr (f j) = job_addr j) \<Longrightarrow>
   find (\<lambda>j. job_addr j = a) (update_job a f js) = Some (f job)"
  by (induction js) (auto simp: update_job_def)

lemma update_job_handle_call:
  "map (\<lambda>j. (job_addr j, cancelled j, request j, handle j))
       (update_job a (\<lambda>j. j\<lparr>handle_call := False\<rparr>) js) =
   map (\<lambda>j. (job_addr j, cancelled j, request j, handle j)) js"
  by (induction js) (auto simp: update_job_def)

lemma reply_cancelled:
  "find (\<lambda>j. job_addr j = a) (jobs s) = Some job \<Longrightarrow> cancelled job \<Longrightarrow>
   thunar_thumbnailer_queue_async_reply s a h error =
     Some (s\<lparr>jobs := remove1 job (jobs s), trace := trace s @ [Proxy_Dequeue h]\<rparr>)"
  by (simp add: thunar_thumbnailer_queue_async_reply_def remove_job_find)


lemma thumb_idle_uri:
  "file_thumb_state (files (idle_uri e type uri s) f) =
     (if file_cache_lookup e uri = Some f
      then (case type of
              THUNAR_THUMBNAILER_IDLE_ERROR \<Rightarrow>
                if file_thumb_state (files s f) = THUMB_STATE_READY then THUMB_STATE_READY
                else THUMB_STATE_NONE
            | THUNAR_THUMBNAILER_IDLE_READY \<Rightarrow> THUMB_STATE_READY)
      else file_thumb_state (files s f))"
  by (auto simp: idle_uri_def thunar_file_set_thumb_state_def split: option.splits idle_type.splits)

lemma ready_kept_idle_loop:
  "file_thumb_state (files s f) = THUMB_STATE_READY \<Longrightarrow>
   file_thumb_state (files (idle_loop e type uris s) f) = THUMB_STATE_READY"
  by (induction uris arbitrary: s) (auto simp: thumb_idle_uri split: idle_type.splits)

lemma ready_set_idle_loop:
  "uri \<in> set uris \<Longrightarrow> file_cache_lookup e uri = Some f \<Longrightarrow>
   file_thumb_state (files (idle_loop e THUNAR_THUMBNAILER_IDLE_READY uris s) f) = THUMB_STATE_READY"
proof (induction uris arbitrary: s)
  case Nil
  then show ?case by simp
next
  case (Cons u uris)
  show ?case
  proof (cases "u = uri")
    case True
    with Cons.prems(2) have "file_thumb_state
        (files (idle_uri e THUNAR_THUMBNAILER_IDLE_READY u s) f) = THUMB_STATE_READY"
      by (simp add: thumb_idle_uri)
    then show ?thesis by (simp add: ready_kept_idle_loop)
  next
    case False
    with Cons.prems have "uri \<in> set uris" by simp
    from Cons.IH [OF this Cons.prems(2)] show ?thesis by simp
  qed
qed

lemma idle_func_Some:
  "thunar_thumbnailer_idle_func e s a = Some s' \<Longrightarrow>
   \<exists>i. find (\<lambda>i. idle_addr i = a) (idles s) = Some i \<and>
       files s' = files (idle_loop e (idle_type i) (idle_uris i) s) \<and>
       idles s' = remove_idle a (idles s)"
  by (auto simp: thunar_thumbnailer_idle_func_def Let_def idle_loop_fields split: option.splits)

lemma find_remove_idle:
  "a \<noteq> b \<Longrightarrow> find (\<lambda>i. idle_addr i = a) (remove_idle b is) = find (\<lambda>i. idle_addr i = a) is"
  by (induction "is") auto

lemma run_idle_ready_kept:
  "run e s (map Idle_Func as) = Some s' \<Longrightarrow> file_thumb_state (files s f) = THUMB_STATE_READY \<Longrightarrow>
   file_thumb_state (files s' f) = THUMB_STATE_READY"
proof (induction as arbitrary: s)
  case Nil
  then show ?case by simp
next
  case (Cons b bs)
  from Cons.prems(1) obtain s1 where s1: "thunar_thumbnailer_idle_func e s b = Some s1"
    and r: "run e s1 (map Idle_Func bs) = Some s'" by (auto split: option.splits)
  from idle_func_Some [OF s1] Cons.prems(2)
  have "file_thumb_state (files s1 f) = THUMB_STATE_READY"
    by (auto simp: ready_kept_idle_loop)
  from Cons.IH [OF r this] show ?case .
qed

lemma run_idle_ready:
  "run e s (map Idle_Func as) = Some s' \<Longrightarrow> a \<in> set as \<Longrightarrow>
   find (\<lambda>i. idle_addr i = a) (idles s) = Some i \<Longrightarrow>
   idle_type i = THUNAR_THUMBNAILER_IDLE_READY \<Longrightarrow> uri \<in> set (idle_uris i) \<Longrightarrow>
   file_cache_lookup e uri = Some f \<Longrightarrow>
   file_thumb_state (files s' f) = THUMB_STATE_READY"
proof (induction as arbitrary: s)
  case Nil
  then show ?case by simp
next
  case (Cons b bs)
  from Cons.prems(1) obtain s1 where s1: "thunar_thumbnailer_idle_func e s b = Some s1"
    and r: "run e s1 (map Idle_Func bs) = Some s'" by (auto split: option.splits)
  from idle_func_Some [OF s1] obtain i' where
    i': "find (\<lambda>i. idle_addr i = b) (idles s) = Some i'"
        "files s1 = files (idle_loop e (idle_type i') (idle_uris i') s)"
        "idles s1 = remove_idle b (idles s)" by blast
  show ?case
  proof (cases "b = a")
    case True
    with i'(1) Cons.prems(3) have "i' = i" by simp
    with i'(2) Cons.prems(4,5,6) have "file_thumb_state (files s1 f) = THUMB_STATE_READY"
      by (simp add: ready_set_idle_loop)
    from run_idle_ready_kept [OF r this] show ?thesis .
  next
    case False
    with Cons.prems(2) have a: "a \<in> set bs" by simp
    from False i'(3) Cons.prems(3) have "find (\<lambda>i. idle_addr i = a) (idles s1) = Some i"
      by (simp add: find_remove_idle)
    from Cons.IH [OF r a this Cons.prems(4,5,6)] show ?thesis .
  qed
qed


lemma queue_async_eq:
  "thumbnailer_proxy s \<Longrightarrow>
   thunar_thumbnailer_queue_async s uris mime_hints =
     (max (last_request s + 1) 1,
      s\<lparr>last_request := max (last_request s + 1) 1,
        jobs := \<lparr>job_addr = next_addr s, cancelled = False,
                 request = max (last_request s + 1) 1, handle = 0, handle_call = True\<rparr> # jobs s,
        next_addr := Suc (next_addr s),
        trace := trace s @ [Proxy_Queue uris mime_hints (next_addr s)]\<rparr>)"
  by (simp add: thunar_thumbnailer_queue_async_def Let_def)


lemma queue_files_result:
  "thunar_thumbnailer_queue_files e s fl request_ptr = (ok, req, s') \<Longrightarrow>
   ok = (thumbnailer_proxy s \<and> filter (eligible e s) fl \<noteq> []) \<and>
   req = (if ok \<and> request_ptr then Some (max (last_request s + 1) 1) else None) \<and>
   (\<exists>s1. (s1 = s \<or> s1 = request_supported e s) \<and>
      s' = (if ok
            then snd (thunar_thumbnailer_queue_async
                     (set_loading (rev (filter (eligible e s) fl)) s1)
                     (map (\<lambda>f. file_uri (files s f)) (rev (filter (eligible e s) fl)))
                     (map (\<lambda>f. file_content_type (files s f)) (rev (filter (eligible e s) fl))))
            else s1))"
  using queue_files_eq [of s e fl request_ptr] by (auto split: if_splits)

lemma queue_files_failure:
  assumes "thunar_thumbnailer_queue_files e s fl request_ptr = (False, req, s')"
  shows "req = None" and "s' = s \<or> s' = request_supported e s"
  using queue_files_result [OF assms] by auto

lemma queue_files_success:
  assumes "thunar_thumbnailer_queue_files e s fl request_ptr = (True, req, s')"
  shows "thumbnailer_proxy s"
    and "req = (if request_ptr then Some (max (last_request s + 1) 1) else None)"
    and "last_request s' = max (last_request s + 1) 1"
    and "jobs s' = \<lparr>job_addr = next_addr s, cancelled = False,
                    request = max (last_request s + 1) 1, handle = 0, handle_call = True\<rparr> # jobs s"
    and "trace s' = trace s @
           map (\<lambda>f. Set_Thumb_State f THUMB_STATE_LOADING) (rev (filter (eligible e s) fl)) @
           [Proxy_Queue (map (\<lambda>f. file_uri (files s f)) (rev (filter (eligible e s) fl)))
              (map (\<lambda>f. file_content_type (files s f)) (rev (filter (eligible e s) fl)))
              (next_addr s)]"
    and "files s' = (\<lambda>f. if f \<in> set fl \<and> eligible e s f
                         then (files s f)\<lparr>file_thumb_state := THUMB_STATE_LOADING\<rparr>
                         else files s f)"
proof -
  from queue_files_result [OF assms] obtain s1 where
    p: "thumbnailer_proxy s" and
    r: "req = (if request_ptr then Some (max (last_request s + 1) 1) else None)" and
    s1: "s1 = s \<or> s1 = request_supported e s" and
    s': "s' = snd (thunar_thumbnailer_queue_async
                     (set_loading (rev (filter (eligible e s) fl)) s1)
                     (map (\<lambda>f. file_uri (files s f)) (rev (filter (eligible e s) fl)))
                     (map (\<lambda>f. file_content_type (files s f)) (rev (filter (eligible e s) fl))))"
    by auto
  from s1 have f: "jobs s1 = jobs s" "last_request s1 = last_request s" "trace s1 = trace s"
     "thumbnailer_proxy s1 = thumbnailer_proxy s" "next_addr s1 = next_addr s"
     "files s1 = files s"
    by (auto simp: request_supported_fields)
  show "thumbnailer_proxy s" by (rule p)
  show "req = (if request_ptr then Some (max (last_request s + 1) 1) else None)" by (rule r)
  show "last_request s' = max (last_request s + 1) 1"
    using p f by (simp add: s' queue_async_eq set_loading_def)
  show "jobs s' = \<lparr>job_addr = next_addr s, cancelled = False,
                    request = max (last_request s + 1) 1, handle = 0, handle_call = True\<rparr> # jobs s"
    using p f by (simp add: s' queue_async_eq set_loading_def)
  show "trace s' = trace s @
           map (\<lambda>f. Set_Thumb_State f THUMB_STATE_LOADING) (rev (filter (eligible e s) fl)) @
           [Proxy_Queue (map (\<lambda>f. file_uri (files s f)) (rev (filter (eligible e s) fl)))
              (map (\<lambda>f. file_content_type (files s f)) (rev (filter (eligible e s) fl)))
              (next_addr s)]"
    using p f by (simp add: s' queue_async_eq set_loading_def)
  show "files s' = (\<lambda>f. if f \<in> set fl \<and> eligible e s f
                         then (files s f)\<lparr>file_thumb_state := THUMB_STATE_LOADING\<rparr>
                         else files s f)"
  proof -
    have fx: "files s1 x = files s x" for x using f(6) by simp
    show ?thesis using p f(4) by (simp add: s' queue_async_eq set_loading_def fx cong: if_cong)
  qed
qed


lemma registry_ok_returned:
  "registry_ok s \<Longrightarrow>
   sorted_wrt (<) (returned_requests (trace s)) \<and> 0 \<notin> set (returned_requests (trace s))"
  by (auto simp: registry_ok_def)


lemma find_distinct:
  "distinct (map f xs) \<Longrightarrow> x \<in> set xs \<Longrightarrow> find (\<lambda>y. f y = f x) xs = Some x"
  by (induction xs) (auto simp: image_iff)

lemma keys_maps:
  "map fst (keys s) = map job_addr (jobs s)" "map snd (keys s) = map request (jobs s)"
  "snd ` set (keys s) = request ` set (jobs s)"
  by (auto simp: keys_def image_iff)

lemma registry_ok_jobs:
  assumes "registry_ok s"
  shows "distinct (map job_addr (jobs s))" and "distinct (map request (jobs s))"
    and "j \<in> set (jobs s) \<Longrightarrow> thumbnailer_proxy s"
    and "j \<in> set (jobs s) \<Longrightarrow> request j \<le> last_request s"
    and "j \<in> set (jobs s) \<Longrightarrow> Request_Finished (request j) \<notin> set (trace s)"
proof -
  from assms show "distinct (map job_addr (jobs s))" "distinct (map request (jobs s))"
    by (simp_all add: registry_ok_def keys_maps)
  assume j: "j \<in> set (jobs s)"
  then have k: "(job_addr j, request j) \<in> set (keys s)" by (auto simp: keys_def)
  then have "keys s \<noteq> []" by auto
  with assms show "thumbnailer_proxy s" by (simp add: registry_ok_def)
  from assms k show "request j \<le> last_request s" unfolding registry_ok_def by fastforce
  from assms j show "Request_Finished (request j) \<notin> set (trace s)"
    unfolding registry_ok_def keys_maps set_finished_requests [symmetric] by blast
qed

lemma distinct_remove1_other:
  "distinct (map f xs) \<Longrightarrow> x \<in> set xs \<Longrightarrow> y \<in> set (remove1 x xs) \<Longrightarrow> f y \<noteq> f x"
  by (induction xs) (auto simp: image_iff split: if_splits)

lemma dequeue_pending:
  assumes "registry_ok s" and "j \<in> set (jobs s)" and "handle j = 0"
  shows "trace (thunar_thumbnailer_dequeue s (request j)) = trace s"
    and "j\<lparr>cancelled := True\<rparr> \<in> set (jobs (thunar_thumbnailer_dequeue s (request j)))"
proof -
  from find_distinct [OF registry_ok_jobs(2) [OF assms(1)] assms(2)]
  have f: "find (\<lambda>y. request y = request j) (jobs s) = Some j" .
  from find_split [OF f] obtain as bs where
    sp: "jobs s = as @ j # bs" "\<forall>x\<in>set as. request x \<noteq> request j" by blast
  note dl = dequeue_loop_split [OF sp(2) refl, of "thumbnailer_proxy s" bs]
  show "trace (thunar_thumbnailer_dequeue s (request j)) = trace s"
    "j\<lparr>cancelled := True\<rparr> \<in> set (jobs (thunar_thumbnailer_dequeue s (request j)))"
    using assms(3) by (simp_all add: thunar_thumbnailer_dequeue_def sp(1) dl)
qed

lemma dequeue_attached:
  assumes "registry_ok s" and "j \<in> set (jobs s)" and "handle j \<noteq> 0"
  shows "thunar_thumbnailer_dequeue s (request j) =
           s\<lparr>jobs := remove1 j (jobs s), trace := trace s @ [Proxy_Dequeue (handle j)]\<rparr>"
proof -
  from find_distinct [OF registry_ok_jobs(2) [OF assms(1)] assms(2)]
  have f: "find (\<lambda>y. request y = request j) (jobs s) = Some j" .
  from find_split [OF f] obtain as bs where
    sp: "jobs s = as @ j # bs" "remove1 j (jobs s) = as @ bs"
      "\<forall>x\<in>set as. request x \<noteq> request j" by blast
  note dl = dequeue_loop_split [OF sp(3) refl]
  from registry_ok_jobs(3) [OF assms(1,2)] have p: "thumbnailer_proxy s" .
  have "thunar_thumbnailer_dequeue s (request j) =
      s\<lparr>jobs := as @ bs, trace := trace s @ [Proxy_Dequeue (handle j)]\<rparr>"
    using assms(3) p by (simp add: thunar_thumbnailer_dequeue_def sp(1) dl)
  with sp(2) show ?thesis by simp
qed

lemma dequeue_loop_keeps:
  "j \<in> set js \<Longrightarrow> handle j = 0 \<Longrightarrow> cancelled j \<Longrightarrow> j \<in> set (snd (dequeue_loop p r js))"
  by (induction js) (auto split: prod.splits)

lemma finished_loop_keeps:
  "finished_loop h js = Some (r, js') \<Longrightarrow> j \<in> set js \<Longrightarrow> handle j \<noteq> h \<Longrightarrow> j \<in> set js'"
  by (induction js arbitrary: js') (auto split: if_splits option.splits)

lemma remove_job_keeps: "j \<in> set js \<Longrightarrow> job_addr j \<noteq> a \<Longrightarrow> j \<in> set (remove_job a js)"
  by (induction js) auto

lemma update_job_keeps: "j \<in> set js \<Longrightarrow> job_addr j \<noteq> a \<Longrightarrow> j \<in> set (update_job a f js)"
  by (auto simp: update_job_def image_iff)

lemma queue_files_keeps:
  assumes "thunar_thumbnailer_queue_files e s fl request_ptr = (ok, req, s')"
    and "j \<in> set (jobs s)"
  shows "j \<in> set (jobs s')"
proof (cases ok)
  case True
  with assms(1) have "thunar_thumbnailer_queue_files e s fl request_ptr = (True, req, s')" by simp
  from queue_files_success(4) [OF this] assms(2) show ?thesis by simp
next
  case False
  with assms(1) have "thunar_thumbnailer_queue_files e s fl request_ptr = (False, req, s')" by simp
  from queue_files_failure(2) [OF this] assms(2) show ?thesis
    by (auto simp: request_supported_fields)
qed

lemma step_keeps:
  assumes "step e s x = Some s'" and "j \<in> set (jobs s)" and "handle j = 0" and "cancelled j"
    and "x \<noteq> Finished 0" and "\<forall>h err. x \<noteq> Queue_Reply (job_addr j) h err"
  shows "j \<in> set (jobs s')"
proof (cases x)
  case (Queue_Files fl request_ptr)
  with assms(1,2) show ?thesis by (auto split: prod.splits dest: queue_files_keeps)
next
  case (Dequeue r)
  with assms(1) have "jobs s' = snd (dequeue_loop (thumbnailer_proxy s) r (jobs s))"
    by (auto simp: thunar_thumbnailer_dequeue_def split: prod.splits)
  with dequeue_loop_keeps [OF assms(2,3,4)] show ?thesis by simp
next
  case (Queue_Reply a h error)
  with assms(6) have ne: "job_addr j \<noteq> a" by auto
  from Queue_Reply assms(1) have "jobs s' = remove_job a (jobs s) \<or>
      (\<exists>f. jobs s' = update_job a f (jobs s))"
    by (auto simp: thunar_thumbnailer_queue_async_reply_def split: option.splits if_splits)
  with remove_job_keeps [OF assms(2) ne] update_job_keeps [OF assms(2) ne] show ?thesis by auto
next
  case (Finished h)
  with assms(5) have ne: "handle j \<noteq> h" using assms(3) by auto
  show ?thesis
  proof (cases "finished_loop h (jobs s)")
    case None
    with Finished assms(1,2) show ?thesis
      by (auto simp: thunar_thumbnailer_thumbnailer_finished_def)
  next
    case (Some p)
    obtain r js' where p: "p = (r, js')" by (cases p)
    from finished_loop_keeps [OF Some [unfolded p] assms(2) ne] Finished assms(1) Some p
    show ?thesis by (auto simp: thunar_thumbnailer_thumbnailer_finished_def)
  qed
next
  case (Ready h uris)
  with assms(1,2) show ?thesis
    by (auto simp: thunar_thumbnailer_thumbnailer_ready_def thunar_thumbnailer_idle_def
        split: option.splits)
next
  case (Error h uris code message)
  with assms(1,2) show ?thesis
    by (auto simp: thunar_thumbnailer_thumbnailer_error_def thunar_thumbnailer_idle_def
        split: option.splits)
next
  case (Idle_Func a)
  with assms(1,2) show ?thesis
    by (auto simp: thunar_thumbnailer_idle_func_def Let_def idle_loop_fields split: option.splits)
qed

lemma run_keeps:
  "run e s acts = Some s' \<Longrightarrow> j \<in> set (jobs s) \<Longrightarrow> handle j = 0 \<Longrightarrow> cancelled j \<Longrightarrow>
   \<forall>x\<in>set acts. x \<noteq> Finished 0 \<and> (\<forall>h err. x \<noteq> Queue_Reply (job_addr j) h err) \<Longrightarrow>
   j \<in> set (jobs s')"
proof (induction acts arbitrary: s)
  case Nil
  then show ?case by simp
next
  case (Cons x acts)
  from Cons.prems(1) obtain s1 where st: "step e s x = Some s1" and r: "run e s1 acts = Some s'"
    by (auto split: option.splits)
  from Cons.prems(5) have x: "x \<noteq> Finished 0" "\<forall>h err. x \<noteq> Queue_Reply (job_addr j) h err"
    and rest: "\<forall>x\<in>set acts. x \<noteq> Finished 0 \<and> (\<forall>h err. x \<noteq> Queue_Reply (job_addr j) h err)"
    by simp_all
  from step_keeps [OF st Cons.prems(2,3,4) x] have "j \<in> set (jobs s1)" .
  from Cons.IH [OF r this Cons.prems(3,4) rest] show ?case .
qed

lemma effect_never_finished:
  assumes "effect s s'" and "registry_ok s" and "last_request s \<noteq> - 1"
    and "r \<le> last_request s" and "r \<notin> snd ` set (keys s)"
    and "r \<notin> set (finished_requests (trace s))"
  shows "r \<le> last_request s' \<and> r \<notin> snd ` set (keys s') \<and>
    r \<notin> set (finished_requests (trace s'))"
proof -
  note n = next_request [OF assms(3)]
  from assms(4) n(2) have lt: "r < last_request s + 1" "r \<le> last_request s + 1" by auto
  from assms(1) consider
    (same) "keys s' = keys s" "last_request s' = last_request s"
      "finished_requests (trace s') = finished_requests (trace s)"
  | (del) as k bs where "keys s = as @ k # bs" "keys s' = as @ bs"
      "last_request s' = last_request s"
      "finished_requests (trace s') = finished_requests (trace s) \<or>
       finished_requests (trace s') = finished_requests (trace s) @ [snd k]"
  | (new) "last_request s' = max (last_request s + 1) 1"
      "keys s' = (next_addr s, last_request s') # keys s"
      "finished_requests (trace s') = finished_requests (trace s)"
    unfolding effect_def by blast
  then show ?thesis
  proof cases
    case same
    with assms(4,5,6) show ?thesis by simp
  next
    case del
    with assms(4,5,6) show ?thesis by auto
  next
    case new
    from new(1) n(1) have l: "last_request s' = last_request s + 1" by simp
    with lt new assms(5,6) show ?thesis by auto
  qed
qed

lemma run_never_finished:
  "run e s acts = Some s' \<Longrightarrow> registry_ok s \<Longrightarrow>
   unat (last_request s) + length acts < 4294967295 \<Longrightarrow>
   r \<le> last_request s \<Longrightarrow> r \<notin> request ` set (jobs s) \<Longrightarrow>
   Request_Finished r \<notin> set (trace s) \<Longrightarrow>
   Request_Finished r \<notin> set (trace s')"
proof (induction acts arbitrary: s)
  case Nil
  then show ?case by simp
next
  case (Cons a acts)
  from Cons.prems(1) obtain s1 where st: "step e s a = Some s1" and r: "run e s1 acts = Some s'"
    by (auto split: option.splits)
  from Cons.prems(3) have nm: "last_request s \<noteq> - 1" by (intro unat_not_max) simp
  note ef = step_effect [OF st]
  from effect_registry_ok [OF ef Cons.prems(2) nm] have ok1: "registry_ok s1" .
  from effect_last_request(1) [OF ef nm] Cons.prems(3)
  have b: "unat (last_request s1) + length acts < 4294967295" by simp
  from Cons.prems(5,6) have "r \<notin> snd ` set (keys s)" "r \<notin> set (finished_requests (trace s))"
    by (simp_all add: keys_maps set_finished_requests)
  from effect_never_finished [OF ef Cons.prems(2) nm Cons.prems(4) this]
  have "r \<le> last_request s1" "r \<notin> request ` set (jobs s1)" "Request_Finished r \<notin> set (trace s1)"
    by (simp_all add: keys_maps set_finished_requests)
  from Cons.IH [OF r ok1 b this] show ?case .
qed

lemma queued_append: "queued (xs @ ys) = queued xs @ queued ys"
  by (induction xs rule: queued.induct) auto

lemma queued_set_thumb [simp]: "queued (map (\<lambda>f. Set_Thumb_State f st) fl) = []"
  by (induction fl) auto

lemma idle_uri_queued: "queued (trace (idle_uri e type uri s)) = queued (trace s)"
  by (auto simp: idle_uri_def thunar_file_set_thumb_state_def queued_append
      split: option.splits idle_type.splits)

lemma idle_loop_queued: "queued (trace (idle_loop e type uris s)) = queued (trace s)"
  by (induction uris arbitrary: s) (simp_all add: idle_uri_queued)

lemma served_by_simps [simp]:
  "served_by s (Queue_Files fl rp) = []"
  "served_by s (Dequeue r) = []"
  "served_by s (Queue_Reply a h err) = []"
  "served_by s (Ready h uris) = []"
  "served_by s (Error h uris code message) = []"
  "served_by s (Idle_Func a) = []"
  by (simp_all add: served_by_def)

lemma update_job_addrs:
  "(\<And>j. job_addr (f j) = job_addr j) \<Longrightarrow>
   map job_addr (update_job a f js) = map job_addr js"
  by (induction js) (auto simp: update_job_def)

lemma step_events:
  assumes "step e s a = Some s1"
  shows "finished_requests (trace s1) = finished_requests (trace s) @ map request (served_by s a) \<and>
    (queued (trace s1) = queued (trace s) \<and>
       length (jobs s1) + length (served_by s a) \<le> length (jobs s) \<and>
       job_addr ` set (jobs s1) \<subseteq> job_addr ` set (jobs s)
     \<or> queued (trace s1) = queued (trace s) @ [next_addr s] \<and> served_by s a = [] \<and>
       (\<exists>j. jobs s1 = j # jobs s \<and> job_addr j = next_addr s))"
proof (cases a)
  case (Queue_Files fl request_ptr)
  obtain ok req s' where q: "thunar_thumbnailer_queue_files e s fl request_ptr = (ok, req, s')"
    by (cases "thunar_thumbnailer_queue_files e s fl request_ptr")
  with assms Queue_Files have s1: "s1 = s'\<lparr>trace := trace s' @ [Queue_Files_Returned ok req]\<rparr>"
    by simp
  show ?thesis
  proof (cases ok)
    case True
    with q have "thunar_thumbnailer_queue_files e s fl request_ptr = (True, req, s')" by simp
    from queue_files_success(4,5) [OF this] show ?thesis
      by (cases req) (simp_all add: s1 Queue_Files finished_requests_append queued_append)
  next
    case False
    with q have "thunar_thumbnailer_queue_files e s fl request_ptr = (False, req, s')" by simp
    from queue_files_failure [OF this] show ?thesis
      by (auto simp: s1 Queue_Files finished_requests_append queued_append
          request_supported_fields)
  qed
next
  case (Dequeue r)
  with assms have s1: "s1 = thunar_thumbnailer_dequeue s r" by simp
  show ?thesis
  proof (cases "find (\<lambda>j. request j = r) (jobs s)")
    case None
    from find_None_all [OF None] show ?thesis
      by (simp add: s1 Dequeue thunar_thumbnailer_dequeue_def dequeue_loop_none)
  next
    case (Some j)
    from find_split [OF Some] obtain as bs where
      sp: "jobs s = as @ j # bs" "\<forall>x\<in>set as. request x \<noteq> r" by blast
    from find_SomeD [OF Some] have rj: "request j = r" by simp
    note dl = dequeue_loop_split [OF sp(2) rj]
    show ?thesis
      by (auto simp: s1 Dequeue thunar_thumbnailer_dequeue_def sp(1) dl
          finished_requests_append queued_append)
  qed
next
  case (Queue_Reply a' h error)
  with assms have r: "thunar_thumbnailer_queue_async_reply s a' h error = Some s1" by simp
  then obtain j where j: "find (\<lambda>j. job_addr j = a') (jobs s) = Some j"
    by (auto simp: thunar_thumbnailer_queue_async_reply_def split: option.splits)
  from find_split [OF j] obtain as bs where
    sp: "jobs s = as @ j # bs" "remove1 j (jobs s) = as @ bs" by blast
  have u: "length (update_job a' f (jobs s)) = length (jobs s)" for f
    by (simp add: update_job_def)
  have "set (map job_addr (update_job a' (\<lambda>j. j\<lparr>handle := h, handle_call := False\<rparr>) (jobs s))) =
      set (map job_addr (jobs s))"
    "set (map job_addr (update_job a' (\<lambda>j. j\<lparr>handle_call := False\<rparr>) (jobs s))) =
      set (map job_addr (jobs s))"
    by (simp_all add: update_job_addrs)
  then have v:
    "job_addr ` set (update_job a' (\<lambda>j. j\<lparr>handle := h, handle_call := False\<rparr>) (jobs s)) =
       job_addr ` set (jobs s)"
    "job_addr ` set (update_job a' (\<lambda>j. j\<lparr>handle_call := False\<rparr>) (jobs s)) =
       job_addr ` set (jobs s)"
    by simp_all
  from r j sp u v show ?thesis
    by (auto simp: thunar_thumbnailer_queue_async_reply_def Queue_Reply remove_job_find
        finished_requests_append queued_append split: if_splits)
next
  case (Finished h)
  with assms have s1: "s1 = thunar_thumbnailer_thumbnailer_finished s h" by simp
  show ?thesis
  proof (cases "find (\<lambda>j. handle j = h) (jobs s)")
    case None
    then show ?thesis
      by (simp add: s1 Finished served_by_def thunar_thumbnailer_thumbnailer_finished_def
          finished_loop_find)
  next
    case (Some j)
    from find_split [OF Some] obtain as bs where
      sp: "jobs s = as @ j # bs" "remove1 j (jobs s) = as @ bs" by blast
    from Some sp show ?thesis
      by (auto simp: s1 Finished served_by_def finished_job finished_requests_append
          queued_append)
  qed
next
  case (Ready h uris)
  with assms show ?thesis
    by (auto simp: thunar_thumbnailer_thumbnailer_ready_def thunar_thumbnailer_idle_def
        finished_requests_append queued_append split: option.splits)
next
  case (Error h uris code message)
  with assms show ?thesis
    by (auto simp: thunar_thumbnailer_thumbnailer_error_def thunar_thumbnailer_idle_def
        finished_requests_append queued_append split: option.splits)
next
  case (Idle_Func a')
  with assms show ?thesis
    by (auto simp: thunar_thumbnailer_idle_func_def Let_def idle_loop_fields idle_loop_queued
        split: option.splits)
qed

lemma effect_addr_ok:
  assumes "effect s s'" and "addr_ok s"
  shows "addr_ok s'"
proof -
  have le: "next_addr s \<le> next_addr s'" using assms(1) unfolding effect_def by blast
  have b: "\<forall>a\<in>set (map fst (keys s)). a < next_addr s'"
  proof
    fix a assume "a \<in> set (map fst (keys s))"
    with assms(2) have "a < next_addr s" by (auto simp: addr_ok_def keys_maps)
    with le show "a < next_addr s'" by simp
  qed
  from assms(2) have d: "distinct (map fst (keys s))" by (simp add: addr_ok_def keys_maps)
  from assms(1) consider
    (same) "keys s' = keys s"
  | (del) as k bs where "keys s = as @ k # bs" "keys s' = as @ bs"
  | (new) "next_addr s < next_addr s'" "\<exists>r. keys s' = (next_addr s, r) # keys s"
    unfolding effect_def by blast
  then have "distinct (map fst (keys s')) \<and> (\<forall>a\<in>set (map fst (keys s')). a < next_addr s')"
  proof cases
    case same
    with b d show ?thesis by simp
  next
    case del
    with b d show ?thesis by auto
  next
    case new
    then obtain r where k: "keys s' = (next_addr s, r) # keys s" by blast
    from assms(2) have "next_addr s \<notin> set (map fst (keys s))"
      by (auto simp: addr_ok_def keys_maps)
    with b d new(1) k show ?thesis by auto
  qed
  then show ?thesis by (simp add: addr_ok_def keys_maps)
qed

lemma served_by_cases:
  "served_by s a = [] \<or>
   (\<exists>h j. a = Finished h \<and> find (\<lambda>j. handle j = h) (jobs s) = Some j \<and> served_by s a = [j])"
  by (cases a) (auto simp: served_by_def split: option.splits)

lemma step_addrs:
  assumes "step e s a = Some s1" and "addr_ok s"
  shows "addr_ok s1" and "next_addr s \<le> next_addr s1"
    and "job_addr ` set (jobs s1) \<subseteq> job_addr ` set (jobs s) \<union> {next_addr s}"
    and "job_addr ` set (served_by s a) \<subseteq> job_addr ` set (jobs s)"
    and "job_addr ` set (served_by s a) \<inter> job_addr ` set (jobs s1) = {}"
    and "distinct (map job_addr (served_by s a))"
    and "set (queued (trace s)) \<subseteq> set (queued (trace s1))"
    and "job_addr ` set (jobs s1) \<subseteq> job_addr ` set (jobs s) \<union> set (queued (trace s1))"
    and "length (finished_requests (trace s1)) + length (jobs s1) + length (queued (trace s)) \<le>
         length (finished_requests (trace s)) + length (jobs s) + length (queued (trace s1))"
proof -
  note ef = step_effect [OF assms(1)]
  from effect_addr_ok [OF ef assms(2)] show "addr_ok s1" .
  from ef show "next_addr s \<le> next_addr s1" unfolding effect_def by blast
  note ev = step_events [OF assms(1)]
  from ev show "job_addr ` set (jobs s1) \<subseteq> job_addr ` set (jobs s) \<union> {next_addr s}"
    by auto
  from ev show "set (queued (trace s)) \<subseteq> set (queued (trace s1))" by auto
  from ev show "job_addr ` set (jobs s1) \<subseteq> job_addr ` set (jobs s) \<union> set (queued (trace s1))"
    by auto
  from ev show "length (finished_requests (trace s1)) + length (jobs s1) + length (queued (trace s)) \<le>
         length (finished_requests (trace s)) + length (jobs s) + length (queued (trace s1))"
    by auto
  from served_by_cases [of s a]
  show "job_addr ` set (served_by s a) \<subseteq> job_addr ` set (jobs s)"
    by (auto dest: find_SomeD)
  from served_by_cases [of s a] show "distinct (map job_addr (served_by s a))" by auto
  from served_by_cases [of s a]
  show "job_addr ` set (served_by s a) \<inter> job_addr ` set (jobs s1) = {}"
  proof
    assume "served_by s a = []"
    then show ?thesis by simp
  next
    assume "\<exists>h j. a = Finished h \<and> find (\<lambda>j. handle j = h) (jobs s) = Some j \<and>
      served_by s a = [j]"
    then obtain h j where a: "a = Finished h" and f: "find (\<lambda>j. handle j = h) (jobs s) = Some j"
      and sb: "served_by s a = [j]" by blast
    from assms(1) a finished_job [OF f] have j1: "jobs s1 = remove1 j (jobs s)" by auto
    from assms(2) have d: "distinct (map job_addr (jobs s))" by (simp add: addr_ok_def)
    from find_SomeD [OF f] have m: "j \<in> set (jobs s)" by simp
    have "job_addr j \<notin> job_addr ` set (remove1 j (jobs s))"
    proof
      assume "job_addr j \<in> job_addr ` set (remove1 j (jobs s))"
      then obtain y where y: "y \<in> set (remove1 j (jobs s))" "job_addr y = job_addr j" by auto
      from distinct_remove1_other [OF d m y(1)] y(2) show False by simp
    qed
    with sb j1 show ?thesis by simp
  qed
qed

lemma set_fresh: "\<forall>x\<in>A. x \<notin> M \<Longrightarrow> R \<subseteq> M \<Longrightarrow> A \<inter> R = {}"
  by blast

lemma set_un_sub: "A \<subseteq> L \<Longrightarrow> R \<subseteq> M \<Longrightarrow> M \<subseteq> L \<union> N \<Longrightarrow> A \<union> R \<subseteq> L \<union> N"
  by blast

lemma set_un_disj: "A \<inter> L = {} \<Longrightarrow> R \<inter> L = {} \<Longrightarrow> (A \<union> R) \<inter> L = {}"
  by blast

lemma set_sub_un: "A \<subseteq> B \<union> C \<Longrightarrow> C \<subseteq> D \<Longrightarrow> A \<subseteq> B \<union> D"
  by blast

lemma set_queued: "L' \<union> R \<subseteq> M \<union> Q \<Longrightarrow> M \<subseteq> L \<union> Q \<Longrightarrow> A \<subseteq> L \<Longrightarrow> L' \<union> (A \<union> R) \<subseteq> L \<union> Q"
  by blast

lemma run_served:
  "run e s acts = Some s' \<Longrightarrow> addr_ok s \<Longrightarrow>
   addr_ok s' \<and> next_addr s \<le> next_addr s' \<and>
   finished_requests (trace s') = finished_requests (trace s) @ map request (served e s acts) \<and>
   distinct (map job_addr (served e s acts)) \<and>
   job_addr ` set (served e s acts) \<subseteq> job_addr ` set (jobs s) \<union> {a. next_addr s \<le> a} \<and>
   job_addr ` set (jobs s') \<subseteq> job_addr ` set (jobs s) \<union> {a. next_addr s \<le> a} \<and>
   job_addr ` set (served e s acts) \<inter> job_addr ` set (jobs s') = {} \<and>
   set (queued (trace s)) \<subseteq> set (queued (trace s')) \<and>
   job_addr ` set (jobs s') \<union> job_addr ` set (served e s acts) \<subseteq>
     job_addr ` set (jobs s) \<union> set (queued (trace s')) \<and>
   length (finished_requests (trace s')) + length (jobs s') + length (queued (trace s)) \<le>
     length (finished_requests (trace s)) + length (jobs s) + length (queued (trace s'))"
proof (induction acts arbitrary: s)
  case Nil
  then show ?case by auto
next
  case (Cons a acts)
  from Cons.prems(1) obtain s1 where st: "step e s a = Some s1" and r: "run e s1 acts = Some s'"
    by (auto split: option.splits)
  note sa = step_addrs [OF st Cons.prems(2)]
  let ?L = "\<lambda>s. job_addr ` set (jobs s)"
  let ?sb = "job_addr ` set (served_by s a)"
  let ?rest = "job_addr ` set (served e s1 acts)"
  note h1 = Cons.IH [OF r sa(1)]
  note h2 = h1 [THEN conjunct2]
  note h3 = h2 [THEN conjunct2]
  note h4 = h3 [THEN conjunct2]
  note h5 = h4 [THEN conjunct2]
  note h6 = h5 [THEN conjunct2]
  note h7 = h6 [THEN conjunct2]
  note h8 = h7 [THEN conjunct2]
  note h9 = h8 [THEN conjunct2]
  note i1 = h1 [THEN conjunct1] and i2 = h2 [THEN conjunct1] and i3 = h3 [THEN conjunct1]
    and i4 = h4 [THEN conjunct1] and rest = h5 [THEN conjunct1] and live = h6 [THEN conjunct1]
    and i7 = h7 [THEN conjunct1] and i8 = h8 [THEN conjunct1] and i9 = h9 [THEN conjunct1]
    and i10 = h9 [THEN conjunct2]
  have sv: "served e s (a # acts) = served_by s a @ served e s1 acts" using st by simp
  have un: "job_addr ` set (served e s (a # acts)) = ?sb \<union> ?rest"
    by (simp only: sv set_append image_Un)
  from Cons.prems(2) have lt: "\<forall>x\<in>?L s. x < next_addr s" by (simp add: addr_ok_def)
  have sb_old: "\<forall>x\<in>?sb. x < next_addr s1 \<and> x \<notin> ?L s1"
  proof
    fix x assume x: "x \<in> ?sb"
    with sa(4) have "x \<in> ?L s" by blast
    with lt have "x < next_addr s" by blast
    with sa(2) have "x < next_addr s1" by simp
    moreover from x sa(5) have "x \<notin> ?L s1" by blast
    ultimately show "x < next_addr s1 \<and> x \<notin> ?L s1" by simp
  qed
  have fresh: "\<forall>x\<in>?sb. x \<notin> ?L s1 \<union> {a. next_addr s1 \<le> a}"
    using sb_old by auto
  have up: "?L s1 \<union> {a. next_addr s1 \<le> a} \<subseteq> ?L s \<union> {a. next_addr s \<le> a}"
  proof
    fix x assume "x \<in> ?L s1 \<union> {a. next_addr s1 \<le> a}"
    then consider "x \<in> ?L s1" | "next_addr s1 \<le> x" by blast
    then show "x \<in> ?L s \<union> {a. next_addr s \<le> a}"
    proof cases
      case 1
      with sa(3) have "x \<in> ?L s \<or> x = next_addr s" by blast
      then show ?thesis by auto
    next
      case 2
      with sa(2) have "next_addr s \<le> x" by simp
      then show ?thesis by simp
    qed
  qed
  have c2: "next_addr s \<le> next_addr s'" using i2 sa(2) by simp
  from step_events [OF st] have "finished_requests (trace s1) =
      finished_requests (trace s) @ map request (served_by s a)" by (rule conjunct1)
  with i3 have c3: "finished_requests (trace s') =
      finished_requests (trace s) @ map request (served e s (a # acts))"
    by (simp only: sv map_append append_assoc)
  have dis: "?sb \<inter> ?rest = {}" by (rule set_fresh [OF fresh rest])
  have "distinct (map job_addr (served_by s a @ served e s1 acts))"
    using i4 sa(6) dis by (simp only: map_append distinct_append set_map)
  then have c4: "distinct (map job_addr (served e s (a # acts)))" by (simp only: sv)
  have c5: "job_addr ` set (served e s (a # acts)) \<subseteq> ?L s \<union> {a. next_addr s \<le> a}"
    unfolding un by (rule set_un_sub [OF sa(4) rest up])
  have c6: "?L s' \<subseteq> ?L s \<union> {a. next_addr s \<le> a}" by (rule subset_trans [OF live up])
  have "?sb \<inter> ?L s' = {}" by (rule set_fresh [OF fresh live])
  then have c7: "job_addr ` set (served e s (a # acts)) \<inter> ?L s' = {}"
    unfolding un by (rule set_un_disj [OF _ i7])
  have c8: "set (queued (trace s)) \<subseteq> set (queued (trace s'))"
    by (rule subset_trans [OF sa(7) i8])
  have q1: "?L s1 \<subseteq> ?L s \<union> set (queued (trace s'))" by (rule set_sub_un [OF sa(8) i8])
  have c9: "?L s' \<union> job_addr ` set (served e s (a # acts)) \<subseteq>
      ?L s \<union> set (queued (trace s'))"
    unfolding un by (rule set_queued [OF i9 q1 sa(4)])
  have c10: "length (finished_requests (trace s')) + length (jobs s') + length (queued (trace s)) \<le>
     length (finished_requests (trace s)) + length (jobs s) + length (queued (trace s'))"
    using i10 sa(9) by linarith
  show ?case by (intro conjI) (rule i1 c2 c3 c4 c5 c6 c7 c8 c9 c10)+
qed

lemma addr_ok_init: "addr_ok (thunar_thumbnailer_init c fl)"
  by (simp add: addr_ok_def thunar_thumbnailer_init_def)

lemma run_queued:
  "run e s acts = Some s' \<Longrightarrow> addr_ok s \<Longrightarrow> distinct (queued (trace s)) \<Longrightarrow>
   \<forall>a\<in>set (queued (trace s)). a < next_addr s \<Longrightarrow>
   distinct (queued (trace s')) \<and> (\<forall>a\<in>set (queued (trace s')). a < next_addr s')"
proof (induction acts arbitrary: s)
  case Nil
  then show ?case by simp
next
  case (Cons a acts)
  from Cons.prems(1) obtain s1 where st: "step e s a = Some s1" and r: "run e s1 acts = Some s'"
    by (auto split: option.splits)
  note sa = step_addrs [OF st Cons.prems(2)]
  have b: "\<forall>x\<in>set (queued (trace s)). x < next_addr s1"
  proof
    fix x assume "x \<in> set (queued (trace s))"
    with Cons.prems(4) have "x < next_addr s" by blast
    with sa(2) show "x < next_addr s1" by simp
  qed
  from step_events [OF st]
  have "queued (trace s1) = queued (trace s) \<or>
    queued (trace s1) = queued (trace s) @ [next_addr s] \<and>
    (\<exists>j. jobs s1 = j # jobs s \<and> job_addr j = next_addr s)" by blast
  then have "distinct (queued (trace s1)) \<and> (\<forall>x\<in>set (queued (trace s1)). x < next_addr s1)"
  proof
    assume "queued (trace s1) = queued (trace s)"
    with b Cons.prems(3) show ?thesis by simp
  next
    assume n: "queued (trace s1) = queued (trace s) @ [next_addr s] \<and>
      (\<exists>j. jobs s1 = j # jobs s \<and> job_addr j = next_addr s)"
    with sa(1) have "next_addr s < next_addr s1" by (auto simp: addr_ok_def)
    moreover from Cons.prems(4) have "next_addr s \<notin> set (queued (trace s))" by auto
    ultimately show ?thesis using n b Cons.prems(3) by simp
  qed
  then have "distinct (queued (trace s1))" "\<forall>x\<in>set (queued (trace s1)). x < next_addr s1"
    by simp_all
  from Cons.IH [OF r sa(1) this] show ?case .
qed


lemmas example_defs = example_files_def example_env_def example_init_def example_job_def
  example_pending_def example_attached_def

lemmas model_defs = thunar_thumbnailer_init_def
  thunar_thumbnailer_queue_files_def thunar_thumbnailer_file_is_supported_def request_supported_def
  thunar_thumbnailer_queue_async_def thunar_file_set_thumb_state_def
  thunar_thumbnailer_dequeue_def thunar_thumbnailer_queue_async_reply_def
  thunar_thumbnailer_thumbnailer_finished_def thunar_thumbnailer_idle_def
  thunar_thumbnailer_thumbnailer_ready_def thunar_thumbnailer_thumbnailer_error_def
  thunar_thumbnailer_idle_func_def idle_uri_def update_job_def

lemma example_pending_run:
  "run example_env example_init [Queue_Files [0] True] = Some example_pending"
  by (simp add: example_defs model_defs fun_eq_iff)

lemma example_attached_run:
  "run example_env example_init [Queue_Files [0] True, Queue_Reply 0 5 False] = Some example_attached"
  by (simp add: example_defs model_defs fun_eq_iff)


lemma example_notified_run:
  "run example_env example_init
     [Queue_Files [0] True, Queue_Reply 0 5 False,
      Error 5 (Some [''file:///a.png'']) 1 ''boom'', Ready 5 (Some [''file:///a.png''])] =
   Some example_notified"
  by (simp add: example_notified_def example_defs model_defs fun_eq_iff)


lemma near_wrap_step:
  assumes "thumbnailer_proxy s" and "file_content_type (files s 0) = Some ''image/png''"
    and "supported_schemes s = None \<and> supported_types s = None \<or>
         supported_schemes s = Some [''file''] \<and> supported_types s = Some [''image/png'']"
  shows "\<exists>s'. step example_env s (Queue_Files [0] False) = Some s' \<and>
           last_request s' = max (last_request s + 1) 1 \<and>
           thumbnailer_proxy s' \<and> file_content_type (files s' 0) = Some ''image/png'' \<and>
           supported_schemes s' = Some [''file''] \<and> supported_types s' = Some [''image/png'']"
  using assms by (auto simp: model_defs example_env_def Let_def)

lemma last_request_reachable:
  "n < 4294967296 \<Longrightarrow>
   \<exists>s. run example_env example_init (replicate n (Queue_Files [0] False)) = Some s \<and>
       last_request s = of_nat n \<and>
       thumbnailer_proxy s \<and> file_content_type (files s 0) = Some ''image/png'' \<and>
       (supported_schemes s = None \<and> supported_types s = None \<or>
        supported_schemes s = Some [''file''] \<and> supported_types s = Some [''image/png''])"
proof (induction n)
  case 0
  then show ?case by (simp add: example_defs model_defs)
next
  case (Suc n)
  then obtain s where s: "run example_env example_init (replicate n (Queue_Files [0] False)) = Some s"
    "last_request s = of_nat n" "thumbnailer_proxy s"
    "file_content_type (files s 0) = Some ''image/png''"
    "supported_schemes s = None \<and> supported_types s = None \<or>
     supported_schemes s = Some [''file''] \<and> supported_types s = Some [''image/png'']"
    by auto
  from near_wrap_step [OF s(3,4,5)] obtain s' where
    s': "step example_env s (Queue_Files [0] False) = Some s'"
      "last_request s' = max (last_request s + 1) 1"
      "thumbnailer_proxy s'" "file_content_type (files s' 0) = Some ''image/png''"
      "supported_schemes s' = Some [''file''] \<and> supported_types s' = Some [''image/png'']"
    by blast
  have "unat (of_nat n :: guint) = n" using Suc.prems by (simp add: unat_of_nat)
  with Suc.prems have "(of_nat n :: guint) \<noteq> - 1"
    by (intro unat_not_max) simp
  from next_request(1) [OF this] s(2) s'(2) have l: "last_request s' = of_nat (Suc n)" by simp
  have "replicate (Suc n) (Queue_Files [0] False) =
      replicate n (Queue_Files [0] False) @ [Queue_Files [0] False]"
    by (simp add: replicate_append_same)
  then have "run example_env example_init (replicate (Suc n) (Queue_Files [0] False)) = Some s'"
    using s(1) s'(1) by (simp only: run_append option.case run.simps)
  with l s'(3,4,5) show ?case by blast
qed


section \<open>The claims\<close>

text \<open>
  C1. A Finished signal for a handle that no job of the list holds changes nothing: no
  signal is emitted and the state is the same. When a job holds the handle, the first
  such job is the one served: \<open>request-finished\<close> is emitted once, with the request of
  that job, and the link of the job is removed from the list; nothing else changes.

  Consequently, in every run from the initial state, however long: the requests of the
  \<open>request-finished\<close> signals of the trace are, in their order, the requests of the jobs
  that served the Finished signals of the run; no job has served twice, the served jobs
  are jobs of Queue calls of the trace, each Queue call has a job of its own, and a served
  job is not in the list any more; and the signals and the jobs still in the list are
  together at most as many as the Queue calls. So \<open>request-finished\<close> is emitted at most
  once for each accepted request.
\<close>

theorem finished_notification:
  "((\<forall>j\<in>set (jobs s). handle j \<noteq> h) \<longrightarrow> thunar_thumbnailer_thumbnailer_finished s h = s) \<and>
   ((\<exists>j\<in>set (jobs s). handle j = h) \<longrightarrow>
      (\<exists>j. find (\<lambda>j. handle j = h) (jobs s) = Some j \<and> j \<in> set (jobs s) \<and> handle j = h \<and>
         thunar_thumbnailer_thumbnailer_finished s h =
           s\<lparr>jobs := remove1 j (jobs s), trace := trace s @ [Request_Finished (request j)]\<rparr>)) \<and>
   (run e (thunar_thumbnailer_init c fl) acts = Some s' \<longrightarrow>
      finished_requests (trace s') = map request (served e (thunar_thumbnailer_init c fl) acts) \<and>
      distinct (map job_addr (served e (thunar_thumbnailer_init c fl) acts)) \<and>
      job_addr ` set (served e (thunar_thumbnailer_init c fl) acts) \<subseteq> set (queued (trace s')) \<and>
      distinct (queued (trace s')) \<and>
      job_addr ` set (served e (thunar_thumbnailer_init c fl) acts) \<inter> job_addr ` set (jobs s') = {} \<and>
      length (finished_requests (trace s')) + length (jobs s') \<le> length (queued (trace s')))"
proof (intro conjI impI)
  assume "\<forall>j\<in>set (jobs s). handle j \<noteq> h"
  then show "thunar_thumbnailer_thumbnailer_finished s h = s" by (rule finished_no_job)
next
  assume "\<exists>j\<in>set (jobs s). handle j = h"
  then obtain j where j: "find (\<lambda>j. handle j = h) (jobs s) = Some j"
    using find_Some_ex [of "jobs s" "\<lambda>j. handle j = h"] by blast
  from find_SomeD [OF j] finished_job [OF j] j
  show "\<exists>j. find (\<lambda>j. handle j = h) (jobs s) = Some j \<and> j \<in> set (jobs s) \<and> handle j = h \<and>
         thunar_thumbnailer_thumbnailer_finished s h =
           s\<lparr>jobs := remove1 j (jobs s), trace := trace s @ [Request_Finished (request j)]\<rparr>"
    by blast
next
  let ?i = "thunar_thumbnailer_init c fl"
  assume r: "run e ?i acts = Some s'"
  have i: "trace ?i = []" "jobs ?i = []" by (simp_all add: thunar_thumbnailer_init_def)
  note h1 = run_served [OF r addr_ok_init]
  note h2 = h1 [THEN conjunct2]
  note h3 = h2 [THEN conjunct2]
  note h4 = h3 [THEN conjunct2]
  note h5 = h4 [THEN conjunct2]
  note h6 = h5 [THEN conjunct2]
  note h7 = h6 [THEN conjunct2]
  note h8 = h7 [THEN conjunct2]
  note h9 = h8 [THEN conjunct2]
  from h3 [THEN conjunct1]
  show "finished_requests (trace s') = map request (served e ?i acts)" by (simp add: i)
  from h4 [THEN conjunct1] show "distinct (map job_addr (served e ?i acts))" .
  from h9 [THEN conjunct1]
  show "job_addr ` set (served e ?i acts) \<subseteq> set (queued (trace s'))" by (simp add: i)
  from h7 [THEN conjunct1]
  show "job_addr ` set (served e ?i acts) \<inter> job_addr ` set (jobs s') = {}" .
  from h9 [THEN conjunct2]
  show "length (finished_requests (trace s')) + length (jobs s') \<le> length (queued (trace s'))"
    by (simp add: i)
  from run_queued [OF r addr_ok_init]
  show "distinct (queued (trace s'))" by (simp add: i)
qed

theorem finished_notification_witness:
  "6 \<notin> handle ` set (jobs example_attached) \<and>
   thunar_thumbnailer_thumbnailer_finished example_attached 6 = example_attached \<and>
   thunar_thumbnailer_thumbnailer_finished example_attached 5 =
     example_attached\<lparr>jobs := [], trace := trace example_attached @ [Request_Finished 1]\<rparr> \<and>
   run example_env (thunar_thumbnailer_init True example_files)
     [Queue_Files [0] True, Queue_Reply 0 5 False, Finished 5, Finished 5] =
     Some (example_attached\<lparr>jobs := [], trace := trace example_attached @ [Request_Finished 1]\<rparr>) \<and>
   served example_env (thunar_thumbnailer_init True example_files)
     [Queue_Files [0] True, Queue_Reply 0 5 False, Finished 5, Finished 5] =
     [example_job\<lparr>handle := 5, handle_call := False\<rparr>] \<and>
   finished_requests (trace example_attached @ [Request_Finished 1]) = [1] \<and>
   queued (trace example_attached @ [Request_Finished 1]) = [0]"
proof -
  let ?acts = "[Queue_Files [0] True, Queue_Reply 0 5 False, Finished 5, Finished 5]"
  let ?s' = "example_attached\<lparr>jobs := [], trace := trace example_attached @ [Request_Finished 1]\<rparr>"
  have r: "run example_env (thunar_thumbnailer_init True example_files) ?acts = Some ?s'"
    by (simp add: example_defs model_defs fun_eq_iff)
  have sv: "served example_env (thunar_thumbnailer_init True example_files) ?acts =
      [example_job\<lparr>handle := 5, handle_call := False\<rparr>]"
    by (simp add: served_by_def example_defs model_defs fun_eq_iff)
  have n: "\<forall>j\<in>set (jobs example_attached). handle j \<noteq> 6"
    by (simp add: example_defs)
  have n': "6 \<notin> handle ` set (jobs example_attached)" by (simp add: example_defs)
  have y: "\<exists>j\<in>set (jobs example_attached). handle j = 5"
    by (simp add: example_defs)
  from finished_notification [of example_attached 6] n
  have a: "thunar_thumbnailer_thumbnailer_finished example_attached 6 = example_attached" by blast
  from finished_notification [of example_attached 5] y
  have b: "thunar_thumbnailer_thumbnailer_finished example_attached 5 = ?s'"
    by (auto simp: example_defs)
  from finished_notification [where e = example_env and c = True and fl = example_files
      and acts = ?acts and s' = ?s'] r
  have c: "finished_requests (trace ?s') =
      map request (served example_env (thunar_thumbnailer_init True example_files) ?acts)"
    by blast
  have d: "finished_requests (trace example_attached @ [Request_Finished 1]) = [1]"
    using c by (simp add: sv example_defs)
  have q: "queued (trace example_attached @ [Request_Finished 1]) = [0]"
    by (simp add: example_defs)
  from n' a b r sv d q show ?thesis by blast
qed

text \<open>
  C2. In a run from the initial state of fewer than \<open>2^32 - 1\<close> calls, let a job be in
  the list when \<open>thunar_thumbnailer_dequeue\<close> is called with its request.

  If the handle of the job is still 0, the call issues nothing. Let then any calls
  follow, other than a Finished signal with the handle 0 and the reply for this job: the
  reply for this job with a handle and without error then issues exactly one Dequeue,
  with that handle, and unlinks the job.

  If the handle of the job is not 0, \<open>thunar_thumbnailer_dequeue\<close> itself issues
  exactly one Dequeue, with the handle of the job, and unlinks the job.

  In both cases no job with the address or the request of the job is left, and no
  \<open>request-finished\<close> with the request of the job is in the trace, whatever calls
  follow.
\<close>

theorem cancelled_request:
  assumes "run e (thunar_thumbnailer_init c fls) pre = Some s"
    and "j \<in> set (jobs s)"
    and "length pre + length mid + length post + 2 < 4294967295"
  shows
    "(handle j = 0 \<longrightarrow>
        (\<forall>x\<in>set mid. x \<noteq> Finished 0 \<and> (\<forall>h' err. x \<noteq> Queue_Reply (job_addr j) h' err)) \<longrightarrow>
        run e (thunar_thumbnailer_dequeue s (request j)) mid = Some s2 \<longrightarrow>
        trace (thunar_thumbnailer_dequeue s (request j)) = trace s \<and>
        (\<exists>s3. thunar_thumbnailer_queue_async_reply s2 (job_addr j) h False = Some s3 \<and>
           trace s3 = trace s2 @ [Proxy_Dequeue h] \<and>
           (\<forall>x\<in>set (jobs s3). job_addr x \<noteq> job_addr j \<and> request x \<noteq> request j) \<and>
           Request_Finished (request j) \<notin> set (trace s3) \<and>
           (\<forall>s4. run e s3 post = Some s4 \<longrightarrow> Request_Finished (request j) \<notin> set (trace s4)))) \<and>
     (handle j \<noteq> 0 \<longrightarrow>
        thunar_thumbnailer_dequeue s (request j) =
          s\<lparr>jobs := remove1 j (jobs s), trace := trace s @ [Proxy_Dequeue (handle j)]\<rparr> \<and>
        (\<forall>x\<in>set (remove1 j (jobs s)). job_addr x \<noteq> job_addr j \<and> request x \<noteq> request j) \<and>
        Request_Finished (request j) \<notin> set (trace s) \<and>
        (\<forall>s4. run e (thunar_thumbnailer_dequeue s (request j)) post = Some s4 \<longrightarrow>
           Request_Finished (request j) \<notin> set (trace s4)))"
proof (intro conjI impI)
  let ?r = "request j"
  let ?s1 = "thunar_thumbnailer_dequeue s ?r"
  from assms(3) have lp: "length pre < 4294967295" by simp
  from run_init_registry_ok [OF assms(1) lp]
  have ok: "registry_ok s" and ls: "unat (last_request s) \<le> length pre" .
  have st1: "run e s [Dequeue ?r] = Some ?s1" by simp
  from ls assms(3) have b1: "unat (last_request s) + length [Dequeue ?r] < 4294967295" by simp
  from run_registry_ok [OF st1 ok b1]
  have ok1: "registry_ok ?s1" and l1: "unat (last_request ?s1) \<le> length pre + 1"
    and m1: "last_request s \<le> last_request ?s1"
    using ls by simp_all
  note nf = registry_ok_jobs(5) [OF ok assms(2)]
  note rl = registry_ok_jobs(4) [OF ok assms(2)]
  {
    assume h0: "handle j = 0"
      and mid: "\<forall>x\<in>set mid. x \<noteq> Finished 0 \<and> (\<forall>h' err. x \<noteq> Queue_Reply (job_addr j) h' err)"
      and r2: "run e ?s1 mid = Some s2"
    let ?j = "j\<lparr>cancelled := True\<rparr>"
    from dequeue_pending [OF ok assms(2) h0]
    have t1: "trace ?s1 = trace s" and j1: "?j \<in> set (jobs ?s1)" by simp_all
    show "trace ?s1 = trace s" by (rule t1)
    have mid': "\<forall>x\<in>set mid. x \<noteq> Finished 0 \<and> (\<forall>h' err. x \<noteq> Queue_Reply (job_addr ?j) h' err)"
      using mid by simp
    from run_keeps [OF r2 j1 _ _ mid'] h0 have j2: "?j \<in> set (jobs s2)" by simp
    from l1 assms(3) have b2: "unat (last_request ?s1) + length mid < 4294967295" by simp
    from run_registry_ok [OF r2 ok1 b2]
    have ok2: "registry_ok s2" and l2: "unat (last_request s2) \<le> length pre + 1 + length mid"
      and m2: "last_request ?s1 \<le> last_request s2"
      using l1 by simp_all
    from find_distinct [OF registry_ok_jobs(1) [OF ok2] j2]
    have f2: "find (\<lambda>y. job_addr y = job_addr j) (jobs s2) = Some ?j" by simp
    let ?s3 = "s2\<lparr>jobs := remove1 ?j (jobs s2), trace := trace s2 @ [Proxy_Dequeue h]\<rparr>"
    from reply_cancelled [OF f2, of h False]
    have r3: "thunar_thumbnailer_queue_async_reply s2 (job_addr j) h False = Some ?s3" by simp
    have g: "\<forall>x\<in>set (jobs ?s3). job_addr x \<noteq> job_addr j \<and> request x \<noteq> request j"
      using distinct_remove1_other [OF registry_ok_jobs(1) [OF ok2] j2]
        distinct_remove1_other [OF registry_ok_jobs(2) [OF ok2] j2] by auto
    from registry_ok_jobs(5) [OF ok2 j2]
    have nf3: "Request_Finished ?r \<notin> set (trace ?s3)" by simp
    have st3: "run e s2 [Queue_Reply (job_addr j) h False] = Some ?s3" using r3 by simp
    from l2 assms(3)
    have b3: "unat (last_request s2) + length [Queue_Reply (job_addr j) h False] < 4294967295"
      by simp
    from run_registry_ok [OF st3 ok2 b3] l2
    have ok3: "registry_ok ?s3" and l3: "unat (last_request ?s3) \<le> length pre + 2 + length mid"
      by simp_all
    from rl m1 m2 have rl3: "?r \<le> last_request ?s3" by simp
    from g have nr3: "?r \<notin> request ` set (jobs ?s3)" by auto
    from l3 assms(3) have b4: "unat (last_request ?s3) + length post < 4294967295" by simp
    have "\<forall>s4. run e ?s3 post = Some s4 \<longrightarrow> Request_Finished ?r \<notin> set (trace s4)"
      using run_never_finished [OF _ ok3 b4 rl3 nr3 nf3] by blast
    with r3 g nf3
    show "\<exists>s3. thunar_thumbnailer_queue_async_reply s2 (job_addr j) h False = Some s3 \<and>
           trace s3 = trace s2 @ [Proxy_Dequeue h] \<and>
           (\<forall>x\<in>set (jobs s3). job_addr x \<noteq> job_addr j \<and> request x \<noteq> request j) \<and>
           Request_Finished (request j) \<notin> set (trace s3) \<and>
           (\<forall>s4. run e s3 post = Some s4 \<longrightarrow> Request_Finished (request j) \<notin> set (trace s4))"
      by (intro exI [of _ ?s3]) simp
  }
  {
    assume hn: "handle j \<noteq> 0"
    from dequeue_attached [OF ok assms(2) hn]
    show d: "?s1 = s\<lparr>jobs := remove1 j (jobs s), trace := trace s @ [Proxy_Dequeue (handle j)]\<rparr>" .
    show g: "\<forall>x\<in>set (remove1 j (jobs s)). job_addr x \<noteq> job_addr j \<and> request x \<noteq> request j"
      using distinct_remove1_other [OF registry_ok_jobs(1) [OF ok] assms(2)]
        distinct_remove1_other [OF registry_ok_jobs(2) [OF ok] assms(2)] by auto
    show "Request_Finished ?r \<notin> set (trace s)" by (rule nf)
    from nf d have nf1: "Request_Finished ?r \<notin> set (trace ?s1)" by simp
    from g d have nr1: "?r \<notin> request ` set (jobs ?s1)" by auto
    from rl m1 have rl1: "?r \<le> last_request ?s1" by simp
    from l1 assms(3) have b4: "unat (last_request ?s1) + length post < 4294967295" by simp
    show "\<forall>s4. run e ?s1 post = Some s4 \<longrightarrow> Request_Finished ?r \<notin> set (trace s4)"
      using run_never_finished [OF _ ok1 b4 rl1 nr1 nf1] by blast
  }
qed

theorem cancelled_request_witness:
  "run example_env (thunar_thumbnailer_init True example_files) [Queue_Files [0] True] =
     Some example_pending \<and>
   example_job \<in> set (jobs example_pending) \<and> handle example_job = 0 \<and>
   run example_env (thunar_thumbnailer_dequeue example_pending (request example_job))
     [Ready 0 (Some []), Finished 9] =
     Some (example_pending
       \<lparr>jobs := [example_job\<lparr>cancelled := True\<rparr>],
        idles := [\<lparr>idle_addr = 1, idle_type = THUNAR_THUMBNAILER_IDLE_READY, idle_uris = []\<rparr>],
        next_addr := 2, trace := trace example_pending @ [Idle_Add 1]\<rparr>) \<and>
   thunar_thumbnailer_queue_async_reply
     (example_pending
       \<lparr>jobs := [example_job\<lparr>cancelled := True\<rparr>],
        idles := [\<lparr>idle_addr = 1, idle_type = THUNAR_THUMBNAILER_IDLE_READY, idle_uris = []\<rparr>],
        next_addr := 2, trace := trace example_pending @ [Idle_Add 1]\<rparr>) 0 7 False =
     Some (example_pending
       \<lparr>jobs := [],
        idles := [\<lparr>idle_addr = 1, idle_type = THUNAR_THUMBNAILER_IDLE_READY, idle_uris = []\<rparr>],
        next_addr := 2, trace := trace example_pending @ [Idle_Add 1, Proxy_Dequeue 7]\<rparr>) \<and>
   Request_Finished 1 \<notin> set (trace example_pending @ [Idle_Add 1, Proxy_Dequeue 7]) \<and>
   run example_env (thunar_thumbnailer_init True example_files)
     [Queue_Files [0] True, Queue_Reply 0 5 False] = Some example_attached \<and>
   example_job\<lparr>handle := 5, handle_call := False\<rparr> \<in> set (jobs example_attached) \<and>
   thunar_thumbnailer_dequeue example_attached 1 =
     example_attached\<lparr>jobs := [], trace := trace example_attached @ [Proxy_Dequeue 5]\<rparr> \<and>
   Request_Finished 1 \<notin> set (trace example_attached)"
proof -
  let ?s2 = "example_pending
       \<lparr>jobs := [example_job\<lparr>cancelled := True\<rparr>],
        idles := [\<lparr>idle_addr = 1, idle_type = THUNAR_THUMBNAILER_IDLE_READY, idle_uris = []\<rparr>],
        next_addr := 2, trace := trace example_pending @ [Idle_Add 1]\<rparr>"
  let ?s3 = "example_pending
       \<lparr>jobs := [],
        idles := [\<lparr>idle_addr = 1, idle_type = THUNAR_THUMBNAILER_IDLE_READY, idle_uris = []\<rparr>],
        next_addr := 2, trace := trace example_pending @ [Idle_Add 1, Proxy_Dequeue 7]\<rparr>"
  let ?mid = "[Ready 0 (Some []), Finished 9]"
  let ?j = "example_job\<lparr>handle := 5, handle_call := False\<rparr>"
  have p1: "run example_env (thunar_thumbnailer_init True example_files) [Queue_Files [0] True] =
     Some example_pending"
    using example_pending_run by (simp add: example_init_def)
  have j1: "example_job \<in> set (jobs example_pending)" "handle example_job = 0"
    "request example_job = 1" "job_addr example_job = 0"
    by (simp_all add: example_defs)
  have b1: "length [Queue_Files [0] True] + length ?mid + length [Finished 7] + 2 < 4294967295"
    by simp
  have m: "\<forall>x\<in>set ?mid. x \<noteq> Finished 0 \<and> (\<forall>h' err. x \<noteq> Queue_Reply (job_addr example_job) h' err)"
    by simp
  have r2: "run example_env (thunar_thumbnailer_dequeue example_pending (request example_job)) ?mid =
     Some ?s2"
    by (simp add: example_defs model_defs)
  have r3: "thunar_thumbnailer_queue_async_reply ?s2 0 7 False = Some ?s3"
    by (simp add: example_defs model_defs)
  from cancelled_request [OF p1 j1(1) b1, of ?s2 7] j1(2) m r2
  obtain s3 where "thunar_thumbnailer_queue_async_reply ?s2 (job_addr example_job) 7 False = Some s3"
    "Request_Finished (request example_job) \<notin> set (trace s3)"
    by blast
  with r3 j1(3,4) have n1: "Request_Finished 1 \<notin> set (trace ?s3)" by simp
  have p2: "run example_env (thunar_thumbnailer_init True example_files)
     [Queue_Files [0] True, Queue_Reply 0 5 False] = Some example_attached"
    using example_attached_run by (simp add: example_init_def)
  have j2: "?j \<in> set (jobs example_attached)" "handle ?j \<noteq> 0" "request ?j = 1"
    "remove1 ?j (jobs example_attached) = []"
    by (simp_all add: example_defs)
  have b2: "length [Queue_Files [0] True, Queue_Reply 0 5 False] + length ([] :: action list) +
      length [Finished 5] + 2 < 4294967295"
    by simp
  from cancelled_request [OF p2 j2(1) b2] j2(2)
  have "thunar_thumbnailer_dequeue example_attached (request ?j) =
          example_attached\<lparr>jobs := remove1 ?j (jobs example_attached),
            trace := trace example_attached @ [Proxy_Dequeue (handle ?j)]\<rparr> \<and>
        Request_Finished (request ?j) \<notin> set (trace example_attached)"
    by blast
  with j2(3,4) have d: "thunar_thumbnailer_dequeue example_attached 1 =
     example_attached\<lparr>jobs := [], trace := trace example_attached @ [Proxy_Dequeue 5]\<rparr>"
    "Request_Finished 1 \<notin> set (trace example_attached)"
    by simp_all
  from p1 j1(1,2) r2 r3 n1 p2 j2(1) d show ?thesis by simp
qed

text \<open>
  C2, as the specification states it, does not hold of every cancelled request. In the
  first run the request is cancelled while its Queue call is pending, and a Finished
  signal with the handle 0 arrives before the reply: \<open>request-finished\<close> is emitted for
  the cancelled request, and no Dequeue was issued. In the second run the service has
  answered the Queue call with the handle 0 before the request is cancelled: no Dequeue
  is issued and the job stays in the list.
\<close>

theorem cancelled_request_zero_handle:
  "run example_env example_init [Queue_Files [0] True, Dequeue 1, Finished 0] =
     Some (example_pending\<lparr>jobs := [], trace := trace example_pending @ [Request_Finished 1]\<rparr>) \<and>
   run example_env example_init [Queue_Files [0] True, Queue_Reply 0 0 False, Dequeue 1] =
     Some (example_pending
             \<lparr>jobs := [example_job\<lparr>cancelled := True, handle_call := False\<rparr>]\<rparr>)"
  by (simp add: example_defs model_defs fun_eq_iff)

text \<open>
  C3. The run: the first file is queued, the request is cancelled while the Queue call
  is pending, and the reply arrives with an error and with 7 in the place of the handle.
  The reply handler calls Dequeue with that 7, and unlinks the job without a signal.
\<close>

theorem cancelled_reply_with_error:
  "run example_env example_init [Queue_Files [0] True, Dequeue 1, Queue_Reply 0 7 True] =
     Some (example_pending\<lparr>jobs := [], trace := trace example_pending @ [Proxy_Dequeue 7]\<rparr>)"
  by (simp add: example_defs model_defs fun_eq_iff)


text \<open>
  C4. A Ready or Error signal for a handle that no job holds leaves the thumbnailer as it
  is, whatever the URIs. When a job holds the handle and the signal carries a list of
  URIs, one idle struct with the kind of the signal and that list is put in front of
  \<open>idles\<close> and one idle source is registered for it, and nothing else changes. In no
  case does the handler touch a file.
\<close>

theorem ready_error_notification:
  "((\<forall>j\<in>set (jobs s). handle j \<noteq> h) \<longrightarrow>
      thunar_thumbnailer_thumbnailer_ready s h uris = s \<and>
      thunar_thumbnailer_thumbnailer_error s h uris code message = s) \<and>
   ((\<exists>j\<in>set (jobs s). handle j = h) \<longrightarrow>
      thunar_thumbnailer_thumbnailer_ready s h (Some us) =
        s\<lparr>idles := \<lparr>idle_addr = next_addr s, idle_type = THUNAR_THUMBNAILER_IDLE_READY,
                    idle_uris = us\<rparr> # idles s,
          next_addr := Suc (next_addr s),
          trace := trace s @ [Idle_Add (next_addr s)]\<rparr> \<and>
      thunar_thumbnailer_thumbnailer_error s h (Some us) code message =
        s\<lparr>idles := \<lparr>idle_addr = next_addr s, idle_type = THUNAR_THUMBNAILER_IDLE_ERROR,
                    idle_uris = us\<rparr> # idles s,
          next_addr := Suc (next_addr s),
          trace := trace s @ [Idle_Add (next_addr s)]\<rparr>) \<and>
   files (thunar_thumbnailer_thumbnailer_ready s h uris) = files s \<and>
   files (thunar_thumbnailer_thumbnailer_error s h uris code message) = files s"
proof (intro conjI impI)
  assume n: "\<forall>j\<in>set (jobs s). handle j \<noteq> h"
  then have "find (\<lambda>j. handle j = h) (jobs s) = None" by (simp add: find_None_iff)
  then show "thunar_thumbnailer_thumbnailer_ready s h uris = s"
    "thunar_thumbnailer_thumbnailer_error s h uris code message = s"
    by (simp_all add: thunar_thumbnailer_thumbnailer_ready_def
        thunar_thumbnailer_thumbnailer_error_def thunar_thumbnailer_idle_def split: option.splits)
next
  assume "\<exists>j\<in>set (jobs s). handle j = h"
  then obtain j where j: "find (\<lambda>j. handle j = h) (jobs s) = Some j"
    using find_Some_ex [of "jobs s" "\<lambda>j. handle j = h"] by blast
  then show "thunar_thumbnailer_thumbnailer_ready s h (Some us) =
        s\<lparr>idles := \<lparr>idle_addr = next_addr s, idle_type = THUNAR_THUMBNAILER_IDLE_READY,
                    idle_uris = us\<rparr> # idles s,
          next_addr := Suc (next_addr s),
          trace := trace s @ [Idle_Add (next_addr s)]\<rparr>"
    "thunar_thumbnailer_thumbnailer_error s h (Some us) code message =
        s\<lparr>idles := \<lparr>idle_addr = next_addr s, idle_type = THUNAR_THUMBNAILER_IDLE_ERROR,
                    idle_uris = us\<rparr> # idles s,
          next_addr := Suc (next_addr s),
          trace := trace s @ [Idle_Add (next_addr s)]\<rparr>"
    by (simp_all add: thunar_thumbnailer_thumbnailer_ready_def
        thunar_thumbnailer_thumbnailer_error_def thunar_thumbnailer_idle_def)
next
  show "files (thunar_thumbnailer_thumbnailer_ready s h uris) = files s"
    "files (thunar_thumbnailer_thumbnailer_error s h uris code message) = files s"
    by (simp_all add: thunar_thumbnailer_thumbnailer_ready_def
        thunar_thumbnailer_thumbnailer_error_def thunar_thumbnailer_idle_def split: option.splits)
qed

theorem ready_error_notification_witness:
  "6 \<notin> handle ` set (jobs example_attached) \<and>
   thunar_thumbnailer_thumbnailer_ready example_attached 6 (Some [''file:///a.png'']) =
     example_attached \<and>
   thunar_thumbnailer_thumbnailer_error example_attached 6 (Some [''file:///a.png'']) 1 ''boom'' =
     example_attached \<and>
   (\<exists>j\<in>set (jobs example_attached). handle j = 5) \<and>
   thunar_thumbnailer_thumbnailer_ready example_attached 5 (Some [''file:///a.png'']) =
     example_attached\<lparr>idles := [\<lparr>idle_addr = 1, idle_type = THUNAR_THUMBNAILER_IDLE_READY,
                                   idle_uris = [''file:///a.png'']\<rparr>],
          next_addr := 2, trace := trace example_attached @ [Idle_Add 1]\<rparr> \<and>
   thunar_thumbnailer_thumbnailer_error example_attached 5 (Some [''file:///a.png'']) 1 ''boom'' =
     example_attached\<lparr>idles := [\<lparr>idle_addr = 1, idle_type = THUNAR_THUMBNAILER_IDLE_ERROR,
                                   idle_uris = [''file:///a.png'']\<rparr>],
          next_addr := 2, trace := trace example_attached @ [Idle_Add 1]\<rparr>"
proof -
  have n: "\<forall>j\<in>set (jobs example_attached). handle j \<noteq> 6" by (simp add: example_defs)
  have y: "\<exists>j\<in>set (jobs example_attached). handle j = 5" by (simp add: example_defs)
  from ready_error_notification [of example_attached 6 "Some [''file:///a.png'']" 1 "''boom''"] n
  have a: "thunar_thumbnailer_thumbnailer_ready example_attached 6 (Some [''file:///a.png'']) =
     example_attached \<and>
   thunar_thumbnailer_thumbnailer_error example_attached 6 (Some [''file:///a.png'']) 1 ''boom'' =
     example_attached" by blast
  from ready_error_notification [of example_attached 5 _ 1 "''boom''" "[''file:///a.png'']"] y
  have b: "thunar_thumbnailer_thumbnailer_ready example_attached 5 (Some [''file:///a.png'']) =
     example_attached\<lparr>idles := [\<lparr>idle_addr = 1, idle_type = THUNAR_THUMBNAILER_IDLE_READY,
                                   idle_uris = [''file:///a.png'']\<rparr>],
          next_addr := 2, trace := trace example_attached @ [Idle_Add 1]\<rparr> \<and>
   thunar_thumbnailer_thumbnailer_error example_attached 5 (Some [''file:///a.png'']) 1 ''boom'' =
     example_attached\<lparr>idles := [\<lparr>idle_addr = 1, idle_type = THUNAR_THUMBNAILER_IDLE_ERROR,
                                   idle_uris = [''file:///a.png'']\<rparr>],
          next_addr := 2, trace := trace example_attached @ [Idle_Add 1]\<rparr>"
    by (simp add: example_defs)
  have n': "6 \<notin> handle ` set (jobs example_attached)" by (simp add: example_defs)
  from n' y a b show ?thesis by blast
qed

text \<open>
  C5. One round of the idle function for a URI that the file cache resolves: of kind
  ready it sets the state of the file to ready whatever it was, of kind error it sets it
  to none unless it is ready. Therefore, when the main loop runs idle functions in any
  order and number and one of them is a ready entry with the URI of the file, the file
  ends in the state ready: error entries for it that ran before are overwritten, error
  entries that run after leave it alone.
\<close>

theorem ready_wins_over_error:
  "(file_cache_lookup e uri = Some f \<longrightarrow>
      file_thumb_state (files (idle_uri e THUNAR_THUMBNAILER_IDLE_READY uri s) f) =
        THUMB_STATE_READY \<and>
      file_thumb_state (files (idle_uri e THUNAR_THUMBNAILER_IDLE_ERROR uri s) f) =
        (if file_thumb_state (files s f) = THUMB_STATE_READY then THUMB_STATE_READY
         else THUMB_STATE_NONE)) \<and>
   (run e s (map Idle_Func as) = Some s' \<longrightarrow> a \<in> set as \<longrightarrow>
      find (\<lambda>i. idle_addr i = a) (idles s) = Some i \<longrightarrow>
      idle_type i = THUNAR_THUMBNAILER_IDLE_READY \<longrightarrow> uri \<in> set (idle_uris i) \<longrightarrow>
      file_cache_lookup e uri = Some f \<longrightarrow>
      file_thumb_state (files s' f) = THUMB_STATE_READY)"
  by (auto simp: thumb_idle_uri intro: run_idle_ready)

theorem ready_wins_over_error_witness:
  "run example_env example_notified (map Idle_Func [1, 2]) =
     Some (example_notified\<lparr>idles := [],
        files := (files example_notified)
          (0 := (example_files 0)\<lparr>file_thumb_state := THUMB_STATE_READY\<rparr>),
        trace := trace example_notified @
          [Set_Thumb_State 0 THUMB_STATE_NONE, Set_Thumb_State 0 THUMB_STATE_READY]\<rparr>) \<and>
   run example_env example_notified (map Idle_Func [2, 1]) =
     Some (example_notified\<lparr>idles := [],
        files := (files example_notified)
          (0 := (example_files 0)\<lparr>file_thumb_state := THUMB_STATE_READY\<rparr>),
        trace := trace example_notified @ [Set_Thumb_State 0 THUMB_STATE_READY]\<rparr>) \<and>
   file_thumb_state
     (files (idle_uri example_env THUNAR_THUMBNAILER_IDLE_ERROR ''file:///a.png'' example_notified) 0) =
     THUMB_STATE_NONE"
proof -
  let ?r = "\<lparr>idle_addr = 2, idle_type = THUNAR_THUMBNAILER_IDLE_READY,
             idle_uris = [''file:///a.png'']\<rparr>"
  let ?s1 = "example_notified\<lparr>idles := [],
        files := (files example_notified)
          (0 := (example_files 0)\<lparr>file_thumb_state := THUMB_STATE_READY\<rparr>),
        trace := trace example_notified @
          [Set_Thumb_State 0 THUMB_STATE_NONE, Set_Thumb_State 0 THUMB_STATE_READY]\<rparr>"
  let ?s2 = "example_notified\<lparr>idles := [],
        files := (files example_notified)
          (0 := (example_files 0)\<lparr>file_thumb_state := THUMB_STATE_READY\<rparr>),
        trace := trace example_notified @ [Set_Thumb_State 0 THUMB_STATE_READY]\<rparr>"
  have r1: "run example_env example_notified (map Idle_Func [1, 2]) = Some ?s1"
    by (simp add: example_notified_def example_defs model_defs fun_eq_iff)
  have r2: "run example_env example_notified (map Idle_Func [2, 1]) = Some ?s2"
    by (simp add: example_notified_def example_defs model_defs fun_eq_iff)
  have f: "find (\<lambda>i. idle_addr i = 2) (idles example_notified) = Some ?r"
    by (simp add: example_notified_def)
  have c: "file_cache_lookup example_env ''file:///a.png'' = Some 0"
    by (simp add: example_env_def)
  from ready_wins_over_error [of example_env "''file:///a.png''" 0 example_notified] c
  have e: "file_thumb_state
     (files (idle_uri example_env THUNAR_THUMBNAILER_IDLE_ERROR ''file:///a.png'' example_notified) 0) =
     THUMB_STATE_NONE"
    by (simp add: example_notified_def example_defs)
  from ready_wins_over_error [of example_env "''file:///a.png''" 0 example_notified "[1, 2]" ?s1 2 ?r]
    r1 f c
  have g1: "file_thumb_state (files ?s1 0) = THUMB_STATE_READY" by simp
  from ready_wins_over_error [of example_env "''file:///a.png''" 0 example_notified "[2, 1]" ?s2 2 ?r]
    r2 f c
  have g2: "file_thumb_state (files ?s2 0) = THUMB_STATE_READY" by simp
  from r1 r2 e g1 g2 show ?thesis by simp
qed


text \<open>
  C6. The reply handler, called with an error for a job that is not cancelled, only
  clears \<open>handle_call\<close> of the job: the thumbnailer is otherwise the same, so that
  nothing is emitted and nothing dequeued; the job is still found under its address,
  and address, cancellation flag, request and handle of every job are as before. A job
  whose handle was 0 keeps the handle 0.
\<close>

theorem reply_delivery_error:
  assumes "find (\<lambda>j. job_addr j = a) (jobs s) = Some job" and "\<not> cancelled job"
  shows "thunar_thumbnailer_queue_async_reply s a h True =
           Some (s\<lparr>jobs := update_job a (\<lambda>j. j\<lparr>handle_call := False\<rparr>) (jobs s)\<rparr>) \<and>
         find (\<lambda>j. job_addr j = a) (update_job a (\<lambda>j. j\<lparr>handle_call := False\<rparr>) (jobs s)) =
           Some (job\<lparr>handle_call := False\<rparr>) \<and>
         map (\<lambda>j. (job_addr j, cancelled j, request j, handle j))
             (update_job a (\<lambda>j. j\<lparr>handle_call := False\<rparr>) (jobs s)) =
         map (\<lambda>j. (job_addr j, cancelled j, request j, handle j)) (jobs s)"
  using assms
  by (simp add: thunar_thumbnailer_queue_async_reply_def find_update_job update_job_handle_call)

theorem reply_delivery_error_witness:
  "find (\<lambda>j. job_addr j = 0) (jobs example_pending) = Some example_job \<and>
   \<not> cancelled example_job \<and>
   thunar_thumbnailer_queue_async_reply example_pending 0 7 True =
     Some (example_pending\<lparr>jobs := [example_job\<lparr>handle_call := False\<rparr>]\<rparr>) \<and>
   handle (example_job\<lparr>handle_call := False\<rparr>) = 0"
proof -
  have f: "find (\<lambda>j. job_addr j = 0) (jobs example_pending) = Some example_job"
    by (simp add: example_defs)
  have c: "\<not> cancelled example_job" by (simp add: example_defs)
  from reply_delivery_error [OF f c, of 7] f c show ?thesis
    by (simp add: example_defs update_job_def)
qed


text \<open>
  C7. \<open>thunar_thumbnailer_queue_files\<close> returns FALSE exactly when there is no proxy or
  no file of the list is eligible. It then stores no request id, and the thumbnailer is
  as before but for the cached arrays of supported schemes and types, which the test of
  the files may have requested: there is no new job, the request counter has not moved,
  no file has changed and nothing was sent or emitted. With no job and no request id of
  its own, the call is one to which no later \<open>request-finished\<close> refers.
\<close>

theorem queue_files_failure_cases:
  "(\<not> fst (thunar_thumbnailer_queue_files e s fl request_ptr) \<longleftrightarrow>
      \<not> thumbnailer_proxy s \<or> (\<forall>f\<in>set fl. \<not> eligible e s f)) \<and>
   (\<not> fst (thunar_thumbnailer_queue_files e s fl request_ptr) \<longrightarrow>
      fst (snd (thunar_thumbnailer_queue_files e s fl request_ptr)) = None \<and>
      (snd (snd (thunar_thumbnailer_queue_files e s fl request_ptr)) = s \<or>
       snd (snd (thunar_thumbnailer_queue_files e s fl request_ptr)) = request_supported e s) \<and>
      jobs (snd (snd (thunar_thumbnailer_queue_files e s fl request_ptr))) = jobs s \<and>
      last_request (snd (snd (thunar_thumbnailer_queue_files e s fl request_ptr))) =
        last_request s \<and>
      next_addr (snd (snd (thunar_thumbnailer_queue_files e s fl request_ptr))) = next_addr s \<and>
      idles (snd (snd (thunar_thumbnailer_queue_files e s fl request_ptr))) = idles s \<and>
      files (snd (snd (thunar_thumbnailer_queue_files e s fl request_ptr))) = files s \<and>
      trace (snd (snd (thunar_thumbnailer_queue_files e s fl request_ptr))) = trace s)"
proof -
  obtain ok req s' where q: "thunar_thumbnailer_queue_files e s fl request_ptr = (ok, req, s')"
    by (cases "thunar_thumbnailer_queue_files e s fl request_ptr")
  from queue_files_result [OF q]
  have ok: "ok = (thumbnailer_proxy s \<and> filter (eligible e s) fl \<noteq> [])" by simp
  have a: "\<not> ok \<longleftrightarrow> \<not> thumbnailer_proxy s \<or> (\<forall>f\<in>set fl. \<not> eligible e s f)"
    by (auto simp: ok filter_empty_conv)
  have b: "req = None \<and> (s' = s \<or> s' = request_supported e s) \<and> jobs s' = jobs s \<and>
      last_request s' = last_request s \<and> next_addr s' = next_addr s \<and> idles s' = idles s \<and>
      files s' = files s \<and> trace s' = trace s" if "\<not> ok"
  proof -
    from q that have "thunar_thumbnailer_queue_files e s fl request_ptr = (False, req, s')"
      by simp
    from queue_files_failure [OF this] show ?thesis
      by (auto simp: request_supported_fields)
  qed
  from a b show ?thesis by (simp add: q)
qed

theorem queue_files_failure_cases_witness:
  "\<not> fst (thunar_thumbnailer_queue_files example_env example_init [2] True) \<and>
   \<not> eligible example_env example_init 2 \<and>
   thunar_thumbnailer_queue_files example_env example_init [2] True = (False, None, example_init) \<and>
   thunar_thumbnailer_queue_files example_env (example_init\<lparr>thumbnailer_proxy := False\<rparr>) [0] True =
     (False, None, example_init\<lparr>thumbnailer_proxy := False\<rparr>) \<and>
   fst (thunar_thumbnailer_queue_files example_env example_init [2, 0] True)"
proof -
  have e: "\<forall>f\<in>set [2]. \<not> eligible example_env example_init f"
    by (simp add: eligible_def example_defs model_defs)
  have p: "\<not> thumbnailer_proxy (example_init\<lparr>thumbnailer_proxy := False\<rparr>)" by simp
  have y: "\<not> (\<not> thumbnailer_proxy example_init \<or> (\<forall>f\<in>set [2, 0]. \<not> eligible example_env example_init f))"
    by (simp add: eligible_def example_defs model_defs)
  from queue_files_failure_cases [of example_env example_init "[2]" True] e
  have a: "\<not> fst (thunar_thumbnailer_queue_files example_env example_init [2] True)" by blast
  from queue_files_failure_cases [of example_env "example_init\<lparr>thumbnailer_proxy := False\<rparr>" "[0]" True] p
  have b: "\<not> fst (thunar_thumbnailer_queue_files example_env
      (example_init\<lparr>thumbnailer_proxy := False\<rparr>) [0] True)" by blast
  from queue_files_failure_cases [of example_env example_init "[2, 0]" True] y
  have c: "fst (thunar_thumbnailer_queue_files example_env example_init [2, 0] True)" by blast
  have d: "thunar_thumbnailer_queue_files example_env example_init [2] True = (False, None, example_init)"
    "thunar_thumbnailer_queue_files example_env (example_init\<lparr>thumbnailer_proxy := False\<rparr>) [0] True =
     (False, None, example_init\<lparr>thumbnailer_proxy := False\<rparr>)"
    by (simp_all add: example_defs model_defs)
  from e have e': "\<not> eligible example_env example_init 2" by simp
  from a b c d e' show ?thesis by blast
qed


text \<open>
  C8. When \<open>thunar_thumbnailer_queue_files\<close> returns TRUE, what it has done outside is,
  in this order: \<open>thunar_file_set_thumb_state\<close> with the state loading on each eligible
  file of the list, from the last to the first, and then the one Queue call with the URIs
  and content types of these files. In the state it returns every eligible file of the
  list is loading, and every other file is as it was.
\<close>

theorem queue_files_sets_loading:
  assumes "fst (thunar_thumbnailer_queue_files e s fl request_ptr)"
  shows
    "trace (snd (snd (thunar_thumbnailer_queue_files e s fl request_ptr))) =
       trace s @
       map (\<lambda>f. Set_Thumb_State f THUMB_STATE_LOADING) (rev (filter (eligible e s) fl)) @
       [Proxy_Queue (map (\<lambda>f. file_uri (files s f)) (rev (filter (eligible e s) fl)))
          (map (\<lambda>f. file_content_type (files s f)) (rev (filter (eligible e s) fl)))
          (next_addr s)] \<and>
     (\<forall>f\<in>set fl. eligible e s f \<longrightarrow>
        files (snd (snd (thunar_thumbnailer_queue_files e s fl request_ptr))) f =
          (files s f)\<lparr>file_thumb_state := THUMB_STATE_LOADING\<rparr>) \<and>
     (\<forall>f. \<not> (f \<in> set fl \<and> eligible e s f) \<longrightarrow>
        files (snd (snd (thunar_thumbnailer_queue_files e s fl request_ptr))) f = files s f)"
proof -
  obtain ok req s' where q: "thunar_thumbnailer_queue_files e s fl request_ptr = (ok, req, s')"
    by (cases "thunar_thumbnailer_queue_files e s fl request_ptr")
  with assms have "thunar_thumbnailer_queue_files e s fl request_ptr = (True, req, s')" by simp
  from queue_files_success(5,6) [OF this] show ?thesis by (simp add: q)
qed

theorem queue_files_sets_loading_witness:
  "fst (thunar_thumbnailer_queue_files example_env example_init [0, 2, 1] True) \<and>
   trace (snd (snd (thunar_thumbnailer_queue_files example_env example_init [0, 2, 1] True))) =
     [Set_Thumb_State 1 THUMB_STATE_LOADING, Set_Thumb_State 0 THUMB_STATE_LOADING,
      Proxy_Queue [''file:///b.png'', ''file:///a.png''] [Some ''image/png'', Some ''image/png''] 0] \<and>
   file_thumb_state
     (files (snd (snd (thunar_thumbnailer_queue_files example_env example_init [0, 2, 1] True))) 0) =
     THUMB_STATE_LOADING \<and>
   files (snd (snd (thunar_thumbnailer_queue_files example_env example_init [0, 2, 1] True))) 2 =
     example_files 2"
proof -
  have a: "fst (thunar_thumbnailer_queue_files example_env example_init [0, 2, 1] True)"
    by (simp add: example_defs model_defs)
  have e: "eligible example_env example_init 0" "\<not> eligible example_env example_init 2"
    "eligible example_env example_init (Suc 0)"
    by (simp_all add: eligible_def example_defs model_defs)
  have f: "files example_init = example_files" "trace example_init = []"
    "next_addr example_init = 0"
    by (simp_all add: example_defs model_defs)
  from queue_files_sets_loading [OF a] a show ?thesis
    by (simp add: e f example_files_def)
qed

text \<open>
  C9. \<open>thunar_thumbnailer_queue_async\<close> returns \<open>MAX (last_request + 1, 1)\<close>, the sum
  taken in 32 bits, and stores it in \<open>last_request\<close>; this is the one request id of the
  batch that \<open>thunar_thumbnailer_queue_files\<close> stores for its caller. The id is never
  0. It is the last id plus one, and greater than it, unless the last id is
  \<open>2^32 - 1\<close>: then it is 1. So in a run of fewer than \<open>2^32 - 1\<close> calls from the
  initial state the returned ids are strictly increasing, and none is 0.
\<close>

theorem request_id_allocation:
  "(thumbnailer_proxy s \<longrightarrow>
      fst (thunar_thumbnailer_queue_async s uris mime_hints) = max (last_request s + 1) 1 \<and>
      last_request (snd (thunar_thumbnailer_queue_async s uris mime_hints)) =
        fst (thunar_thumbnailer_queue_async s uris mime_hints) \<and>
      fst (thunar_thumbnailer_queue_async s uris mime_hints) \<noteq> 0 \<and>
      (last_request s \<noteq> - 1 \<longrightarrow>
         fst (thunar_thumbnailer_queue_async s uris mime_hints) = last_request s + 1 \<and>
         last_request s < fst (thunar_thumbnailer_queue_async s uris mime_hints)) \<and>
      (last_request s = - 1 \<longrightarrow> fst (thunar_thumbnailer_queue_async s uris mime_hints) = 1)) \<and>
   (fst (thunar_thumbnailer_queue_files e s fl request_ptr) \<longrightarrow>
      fst (snd (thunar_thumbnailer_queue_files e s fl request_ptr)) =
        (if request_ptr then Some (max (last_request s + 1) 1) else None) \<and>
      last_request (snd (snd (thunar_thumbnailer_queue_files e s fl request_ptr))) =
        max (last_request s + 1) 1) \<and>
   (length acts < 4294967295 \<longrightarrow> run e (thunar_thumbnailer_init c fls) acts = Some s' \<longrightarrow>
      sorted_wrt (<) (returned_requests (trace s')) \<and> 0 \<notin> set (returned_requests (trace s')))"
proof (intro conjI impI)
  assume p: "thumbnailer_proxy s"
  show "fst (thunar_thumbnailer_queue_async s uris mime_hints) = max (last_request s + 1) 1"
    "last_request (snd (thunar_thumbnailer_queue_async s uris mime_hints)) =
        fst (thunar_thumbnailer_queue_async s uris mime_hints)"
    "fst (thunar_thumbnailer_queue_async s uris mime_hints) \<noteq> 0"
    by (simp_all add: queue_async_eq [OF p] next_request_nonzero)
  {
    assume "last_request s \<noteq> - 1"
    from next_request(1,2) [OF this]
    show "fst (thunar_thumbnailer_queue_async s uris mime_hints) = last_request s + 1"
      "last_request s < fst (thunar_thumbnailer_queue_async s uris mime_hints)"
      by (simp_all add: queue_async_eq [OF p])
  }
  {
    assume "last_request s = - 1"
    then show "fst (thunar_thumbnailer_queue_async s uris mime_hints) = 1"
      by (simp add: queue_async_eq [OF p])
  }
next
  assume a: "fst (thunar_thumbnailer_queue_files e s fl request_ptr)"
  obtain ok req s1 where q: "thunar_thumbnailer_queue_files e s fl request_ptr = (ok, req, s1)"
    by (cases "thunar_thumbnailer_queue_files e s fl request_ptr")
  with a have "thunar_thumbnailer_queue_files e s fl request_ptr = (True, req, s1)" by simp
  from queue_files_success(2,3) [OF this]
  show "fst (snd (thunar_thumbnailer_queue_files e s fl request_ptr)) =
        (if request_ptr then Some (max (last_request s + 1) 1) else None)"
    "last_request (snd (snd (thunar_thumbnailer_queue_files e s fl request_ptr))) =
        max (last_request s + 1) 1"
    by (simp_all add: q)
next
  assume "length acts < 4294967295" "run e (thunar_thumbnailer_init c fls) acts = Some s'"
  from run_init_registry_ok(1) [OF this(2,1)] registry_ok_returned
  show "sorted_wrt (<) (returned_requests (trace s'))" "0 \<notin> set (returned_requests (trace s'))"
    by blast+
qed

theorem request_id_allocation_witness:
  "thumbnailer_proxy example_init \<and>
   fst (thunar_thumbnailer_queue_async example_init [] []) = 1 \<and>
   last_request (snd (thunar_thumbnailer_queue_async example_init [] [])) = 1 \<and>
   last_request example_init < fst (thunar_thumbnailer_queue_async example_init [] []) \<and>
   last_request example_near_wrap \<noteq> - 1 \<and>
   fst (thunar_thumbnailer_queue_async example_near_wrap [] []) = 4294967295 \<and>
   fst (thunar_thumbnailer_queue_files example_env example_init [0, 1] True) \<and>
   fst (snd (thunar_thumbnailer_queue_files example_env example_init [0, 1] True)) = Some 1 \<and>
   length [Queue_Files [0] True, Queue_Files [1] True] < 4294967295 \<and>
   map_option (returned_requests \<circ> trace)
     (run example_env (thunar_thumbnailer_init True example_files)
        [Queue_Files [0] True, Queue_Files [1] True]) = Some [1, 2] \<and>
   sorted_wrt (<) [1, 2 :: guint]"
proof -
  have p: "thumbnailer_proxy example_init" "thumbnailer_proxy example_near_wrap"
    "last_request example_init = 0" "last_request example_near_wrap = 4294967294"
    by (simp_all add: example_defs example_near_wrap_def model_defs)
  have n: "last_request example_init \<noteq> - 1" "last_request example_near_wrap \<noteq> - 1"
    by (simp_all add: p)
  from request_id_allocation [of example_init "[]" "[]"] p(1,3) n(1)
  have a: "fst (thunar_thumbnailer_queue_async example_init [] []) = 1 \<and>
   last_request (snd (thunar_thumbnailer_queue_async example_init [] [])) = 1 \<and>
   last_request example_init < fst (thunar_thumbnailer_queue_async example_init [] [])"
    by simp
  from request_id_allocation [of example_near_wrap "[]" "[]"] p(2,4) n(2)
  have b: "fst (thunar_thumbnailer_queue_async example_near_wrap [] []) = 4294967295"
    by simp
  have q: "fst (thunar_thumbnailer_queue_files example_env example_init [0, 1] True)"
    by (simp add: example_defs model_defs)
  from request_id_allocation [where s = example_init and e = example_env and fl = "[0, 1]"
      and request_ptr = True] q p(3)
  have c: "fst (snd (thunar_thumbnailer_queue_files example_env example_init [0, 1] True)) = Some 1"
    by simp
  have r: "map_option (returned_requests \<circ> trace)
     (run example_env (thunar_thumbnailer_init True example_files)
        [Queue_Files [0] True, Queue_Files [1] True]) = Some [1, 2]"
    by (simp add: example_defs model_defs)
  then obtain s' where s': "run example_env (thunar_thumbnailer_init True example_files)
        [Queue_Files [0] True, Queue_Files [1] True] = Some s'"
    "returned_requests (trace s') = [1, 2]" by auto
  have l: "length [Queue_Files [0] True, Queue_Files [1] True] < 4294967295" by simp
  from request_id_allocation [where acts = "[Queue_Files [0] True, Queue_Files [1] True]"
      and e = example_env and c = True and fls = example_files and s' = s'] s' l
  have d: "sorted_wrt (<) [1, 2 :: guint]" by simp
  from p(1) n(2) a b q c l r d show ?thesis by blast
qed

text \<open>
  C9, as the specification states it, does not hold at the wrap-around. From a thumbnailer
  whose last request id is \<open>2^32 - 2\<close> two successful calls return \<open>2^32 - 1\<close> and then
  1. Such a thumbnailer is reached from the initial one (\<open>last_request_reachable\<close>).
\<close>

theorem request_ids_wrap_around:
  "fst (snd (thunar_thumbnailer_queue_files example_env example_near_wrap [0] True)) =
     Some 4294967295 \<and>
   fst (snd (thunar_thumbnailer_queue_files example_env
     (snd (snd (thunar_thumbnailer_queue_files example_env example_near_wrap [0] True))) [0] True)) =
     Some 1 \<and>
   \<not> (4294967295 < (1 :: guint))"
  by (simp add: example_defs example_near_wrap_def model_defs)

text \<open>
  C10. The job that \<open>thunar_thumbnailer_queue_async\<close> puts in front of the list has the
  handle 0, and keeps it when the reply arrives with an error. In both states a Finished
  signal with the handle 0 is served by that job: \<open>request-finished\<close> is emitted with
  its request and the job is unlinked; and a Ready or an Error signal with the handle 0
  and a list of URIs queues an idle struct.
\<close>

theorem zero_handle_matches_pending_job:
  assumes "thumbnailer_proxy s"
  shows
    "let r = fst (thunar_thumbnailer_queue_async s uris mime_hints);
         s1 = snd (thunar_thumbnailer_queue_async s uris mime_hints);
         job = \<lparr>job_addr = next_addr s, cancelled = False, request = r, handle = 0,
                handle_call = True\<rparr>;
         s2 = s1\<lparr>jobs := job\<lparr>handle_call := False\<rparr> #
                   update_job (next_addr s) (\<lambda>j. j\<lparr>handle_call := False\<rparr>) (jobs s)\<rparr>
     in jobs s1 = job # jobs s \<and>
        thunar_thumbnailer_thumbnailer_finished s1 0 =
          s1\<lparr>jobs := jobs s, trace := trace s1 @ [Request_Finished r]\<rparr> \<and>
        thunar_thumbnailer_thumbnailer_ready s1 0 (Some us) =
          s1\<lparr>idles := \<lparr>idle_addr = next_addr s1, idle_type = THUNAR_THUMBNAILER_IDLE_READY,
                       idle_uris = us\<rparr> # idles s1,
             next_addr := Suc (next_addr s1),
             trace := trace s1 @ [Idle_Add (next_addr s1)]\<rparr> \<and>
        thunar_thumbnailer_thumbnailer_error s1 0 (Some us) code message =
          s1\<lparr>idles := \<lparr>idle_addr = next_addr s1, idle_type = THUNAR_THUMBNAILER_IDLE_ERROR,
                       idle_uris = us\<rparr> # idles s1,
             next_addr := Suc (next_addr s1),
             trace := trace s1 @ [Idle_Add (next_addr s1)]\<rparr> \<and>
        thunar_thumbnailer_queue_async_reply s1 (next_addr s) h True = Some s2 \<and>
        thunar_thumbnailer_thumbnailer_finished s2 0 =
          s2\<lparr>jobs := update_job (next_addr s) (\<lambda>j. j\<lparr>handle_call := False\<rparr>) (jobs s),
             trace := trace s2 @ [Request_Finished r]\<rparr> \<and>
        thunar_thumbnailer_thumbnailer_ready s2 0 (Some us) =
          s2\<lparr>idles := \<lparr>idle_addr = next_addr s2, idle_type = THUNAR_THUMBNAILER_IDLE_READY,
                       idle_uris = us\<rparr> # idles s2,
             next_addr := Suc (next_addr s2),
             trace := trace s2 @ [Idle_Add (next_addr s2)]\<rparr> \<and>
        thunar_thumbnailer_thumbnailer_error s2 0 (Some us) code message =
          s2\<lparr>idles := \<lparr>idle_addr = next_addr s2, idle_type = THUNAR_THUMBNAILER_IDLE_ERROR,
                       idle_uris = us\<rparr> # idles s2,
             next_addr := Suc (next_addr s2),
             trace := trace s2 @ [Idle_Add (next_addr s2)]\<rparr>"
  using assms
  by (simp add: queue_async_eq Let_def thunar_thumbnailer_thumbnailer_finished_def
      thunar_thumbnailer_thumbnailer_ready_def thunar_thumbnailer_thumbnailer_error_def
      thunar_thumbnailer_idle_def thunar_thumbnailer_queue_async_reply_def update_job_def)

theorem zero_handle_matches_pending_job_witness:
  "thumbnailer_proxy example_init \<and>
   thunar_thumbnailer_thumbnailer_finished
     (snd (thunar_thumbnailer_queue_async example_init [''file:///a.png''] [Some ''image/png''])) 0 =
   example_init
     \<lparr>last_request := 1, next_addr := 1,
      trace := [Proxy_Queue [''file:///a.png''] [Some ''image/png''] 0, Request_Finished 1]\<rparr>"
proof -
  have p: "thumbnailer_proxy example_init" by (simp add: example_defs model_defs)
  from zero_handle_matches_pending_job [OF p, of "[''file:///a.png'']" "[Some ''image/png'']"] p
  show ?thesis by (simp add: Let_def queue_async_eq example_defs thunar_thumbnailer_init_def)
qed

end
